theory Spec2Isabelle
  imports Complex_Main
begin

section \<open>Python's \<open>decimal\<close> arithmetic at the default context\<close>

text \<open>
  \<^verbatim>\<open>weighted_scoring.py\<close> computes with \<^verbatim>\<open>decimal.Decimal\<close> under the default
  context: 28 significant digits, rounding ROUND_HALF_EVEN, traps on InvalidOperation,
  DivisionByZero and Overflow. A finite Decimal is a coefficient and an exponent; its
  value is \<open>coeff * 10 ^ expo\<close>. The sign is kept in the coefficient, so Python's
  negative zero is the same value as zero here (the two compare equal in Python).
  Exponents stay far from the context's limits (\<open>\<plusminus>999999\<close>) for every int and float
  the module receives, so those limits are not part of the model.

  Every field value \<open>v\<close> that the module reads goes through \<^verbatim>\<open>Decimal(str(v))\<close>,
  which is exact: for an int \<open>i\<close> it is \<open>Dec i 0\<close>, for a float it is the decimal
  literal that \<^verbatim>\<open>str\<close> prints (\<^verbatim>\<open>33.33\<close> is \<open>Dec 3333 (-2)\<close>). The records
  below hold that Decimal.
\<close>

datatype decimal = Dec (coeff: int) (expo: int)

datatype py_error =
  InvalidOperation | DivisionByZero | IndexError | OverflowError
  | KeyError | TypeError | AttributeError

definition and_then :: "py_error + 'a \<Rightarrow> ('a \<Rightarrow> py_error + 'b) \<Rightarrow> py_error + 'b" where
  "and_then r f = (case r of Inl e \<Rightarrow> Inl e | Inr v \<Rightarrow> f v)"

definition dec_val :: "decimal \<Rightarrow> rat" where
  "dec_val d = of_int (coeff d) * 10 powi (expo d)"

definition prec :: nat where
  "prec = 28"

text \<open>\<^verbatim>\<open>len(str(m))\<close> for a magnitude \<open>m \<ge> 0\<close>: the number of decimal digits.\<close>

function ndigits :: "int \<Rightarrow> nat" where
  "ndigits m = (if m < 10 then 1 else Suc (ndigits (m div 10)))"
  by pat_completeness auto
termination
  by (relation "measure nat") auto

declare ndigits.simps [simp del]

text \<open>
  Dropping the last \<open>k\<close> digits of a magnitude \<open>m\<close>: ROUND_HALF_EVEN (the context's
  rounding) and ROUND_HALF_UP (the rounding that \<^verbatim>\<open>quantize\<close> is called with).
\<close>

definition round_half_even :: "int \<Rightarrow> nat \<Rightarrow> int" where
  "round_half_even m k =
     (let q = m div 10 ^ k; r = m mod 10 ^ k
      in if 2 * r > 10 ^ k \<or> (2 * r = 10 ^ k \<and> odd q) then q + 1 else q)"

definition round_half_up :: "int \<Rightarrow> nat \<Rightarrow> int" where
  "round_half_up m k =
     (let q = m div 10 ^ k; r = m mod 10 ^ k
      in if 2 * r \<ge> 10 ^ k then q + 1 else q)"

text \<open>
  \<^verbatim>\<open>Decimal._fix\<close>: a result with more than 28 digits is rounded to 28; a carry out of
  the 28th digit drops one more digit.
\<close>

definition dec_fix :: "decimal \<Rightarrow> decimal" where
  "dec_fix d =
     (let m = \<bar>coeff d\<bar>; n = ndigits m
      in if n \<le> prec then d
         else let k = n - prec; q = round_half_even m k
              in if q = 10 ^ prec
                 then Dec (sgn (coeff d) * 10 ^ (prec - 1)) (expo d + int k + 1)
                 else Dec (sgn (coeff d) * q) (expo d + int k))"

definition dec_add :: "decimal \<Rightarrow> decimal \<Rightarrow> decimal" where
  "dec_add a b =
     (let e = min (expo a) (expo b)
      in dec_fix (Dec (coeff a * 10 ^ nat (expo a - e) + coeff b * 10 ^ nat (expo b - e)) e))"

definition dec_neg :: "decimal \<Rightarrow> decimal" where
  "dec_neg a = Dec (- coeff a) (expo a)"

definition dec_sub :: "decimal \<Rightarrow> decimal \<Rightarrow> decimal" where
  "dec_sub a b = dec_add a (dec_neg b)"

definition dec_abs :: "decimal \<Rightarrow> decimal" where
  "dec_abs a = dec_fix (Dec \<bar>coeff a\<bar> (expo a))"

definition dec_mul :: "decimal \<Rightarrow> decimal \<Rightarrow> decimal" where
  "dec_mul a b = dec_fix (Dec (coeff a * coeff b) (expo a + expo b))"

text \<open>
  An exact quotient is brought as close to the ideal exponent as its trailing zeros
  allow: the \<^verbatim>\<open>while exp < ideal_exp and coeff % 10 == 0\<close> loop of
  \<^verbatim>\<open>Decimal.__truediv__\<close>, with \<open>n\<close> the distance \<open>ideal_exp - exp\<close> left.
\<close>

fun reduce_exact :: "nat \<Rightarrow> int \<Rightarrow> int \<Rightarrow> int \<times> int" where
  "reduce_exact 0 c e = (c, e)"
| "reduce_exact (Suc n) c e =
     (if c mod 10 = 0 then reduce_exact n (c div 10) (e + 1) else (c, e))"

definition dec_div :: "decimal \<Rightarrow> decimal \<Rightarrow> py_error + decimal" where
  "dec_div a b =
     (if coeff b = 0 then Inl (if coeff a = 0 then InvalidOperation else DivisionByZero)
      else if coeff a = 0 then Inr (dec_fix (Dec 0 (expo a - expo b)))
      else
        let shift = int (ndigits \<bar>coeff b\<bar>) - int (ndigits \<bar>coeff a\<bar>) + int prec + 1;
            e = expo a - expo b - shift;
            num = (if shift \<ge> 0 then \<bar>coeff a\<bar> * 10 ^ nat shift else \<bar>coeff a\<bar>);
            den = (if shift \<ge> 0 then \<bar>coeff b\<bar> else \<bar>coeff b\<bar> * 10 ^ nat (- shift));
            q = num div den;
            r = num mod den;
            (c, e') = (if r \<noteq> 0 then (if q mod 5 = 0 then q + 1 else q, e)
                       else reduce_exact (nat shift) q e)
        in Inr (dec_fix (Dec (sgn (coeff a) * sgn (coeff b) * c) e')))"

text \<open>Comparisons of Decimals are by value, whatever the exponents.\<close>

definition dec_less :: "decimal \<Rightarrow> decimal \<Rightarrow> bool" where
  "dec_less a b =
     (let e = min (expo a) (expo b)
      in coeff a * 10 ^ nat (expo a - e) < coeff b * 10 ^ nat (expo b - e))"

definition dec_eq :: "decimal \<Rightarrow> decimal \<Rightarrow> bool" where
  "dec_eq a b =
     (let e = min (expo a) (expo b)
      in coeff a * 10 ^ nat (expo a - e) = coeff b * 10 ^ nat (expo b - e))"

text \<open>
  \<^verbatim>\<open>d.quantize(Decimal('0.01'), rounding=ROUND_HALF_UP)\<close>: the value at exponent
  \<open>-2\<close>, ties away from zero. It raises InvalidOperation when the result would need
  more than 28 digits.
\<close>

definition quantize :: "decimal \<Rightarrow> py_error + decimal" where
  "quantize d =
     (if coeff d = 0 then Inr (Dec 0 (- 2))
      else if int (ndigits \<bar>coeff d\<bar>) + expo d - 1 + 2 + 1 > int prec then Inl InvalidOperation
      else
        let ans = (if expo d \<ge> - 2 then Dec (coeff d * 10 ^ nat (expo d + 2)) (- 2)
                   else Dec (sgn (coeff d) * round_half_up \<bar>coeff d\<bar> (nat (- 2 - expo d))) (- 2))
        in if ndigits \<bar>coeff ans\<bar> > prec then Inl InvalidOperation else Inr ans)"

text \<open>
  \<^verbatim>\<open>sum(ds)\<close> starts from the int \<open>0\<close> and adds from the left; each addition rounds to
  the context's precision.
\<close>

definition py_sum :: "decimal list \<Rightarrow> decimal" where
  "py_sum ds = foldl dec_add (Dec 0 0) ds"

fun quantize_all :: "decimal list \<Rightarrow> py_error + decimal list" where
  "quantize_all [] = Inr []"
| "quantize_all (w # ws) =
     and_then (quantize w) (\<lambda>q. and_then (quantize_all ws) (\<lambda>qs. Inr (q # qs)))"

section \<open>The weighted score calculator\<close>

text \<open>
  A criterion dictionary: \<^verbatim>\<open>'id'\<close> is read with \<^verbatim>\<open>c['id']\<close>; \<^verbatim>\<open>'text'\<close>,
  \<^verbatim>\<open>'weight'\<close> and \<^verbatim>\<open>'max_points'\<close> are read with \<^verbatim>\<open>.get\<close> and may be absent
  (\<open>None\<close>). A score dictionary has \<^verbatim>\<open>'criterion_id'\<close> and \<^verbatim>\<open>'score'\<close>.
\<close>

record criterion =
  id' :: int
  text' :: "string option"
  weight :: "decimal option"
  max_points :: "decimal option"

record score_entry =
  criterion_id :: int
  score :: decimal

text \<open>
  One entry of the breakdown. The source stores \<^verbatim>\<open>float(...)\<close> of each Decimal; the
  record holds the Decimal that is converted.
\<close>

record detail =
  criterion_id' :: int
  criterion_text :: string
  raw_score :: decimal
  max_points' :: decimal
  weight' :: decimal
  weighted_score :: decimal

text \<open>
  The result dictionary. \<^verbatim>\<open>weighted_total\<close> is the quantized Decimal that the source
  converts with \<^verbatim>\<open>float\<close>. \<^verbatim>\<open>percentage\<close> is computed in binary floating point
  from that float and is not part of the record; the one exception it can raise (an int
  \<^verbatim>\<open>max_score\<close> too large to convert to float) is.
\<close>

record weighted_result =
  weighted_total :: decimal
  breakdown :: "detail list"
  max_score :: int

datatype piece = Txt string | DecPiece decimal | NatPiece nat

text \<open>
  An error message is an f-string: literal text and formatted values, in order. The
  empty string has no piece.
\<close>

type_synonym message = "piece list"

definition get_weight :: "criterion \<Rightarrow> decimal" where
  "get_weight c = (case weight c of None \<Rightarrow> Dec 0 0 | Some w \<Rightarrow> w)"

definition get_max_points :: "criterion \<Rightarrow> decimal" where
  "get_max_points c = (case max_points c of None \<Rightarrow> Dec 0 0 | Some p \<Rightarrow> p)"

definition get_text :: "criterion \<Rightarrow> string" where
  "get_text c = (case text' c of None \<Rightarrow> [] | Some t \<Rightarrow> t)"

text \<open>The \<^verbatim>\<open>for i, criterion in enumerate(criteria)\<close> loop of \<^verbatim>\<open>validate_weights\<close>.\<close>

fun check_weights :: "nat \<Rightarrow> criterion list \<Rightarrow> bool \<times> message" where
  "check_weights i [] = (True, [])"
| "check_weights i (c # cs) =
     (let w = get_weight c
      in if dec_less w (Dec 0 0)
         then (False, [Txt ''Criterion '', NatPiece (i + 1), Txt '' has negative weight: '',
                       DecPiece w, Txt ''%''])
         else if dec_less (Dec 100 0) w
         then (False, [Txt ''Criterion '', NatPiece (i + 1),
                       Txt '' has weight exceeding 100%: '', DecPiece w, Txt ''%''])
         else check_weights (i + 1) cs)"

definition validate_weights :: "criterion list \<Rightarrow> bool \<times> message" where
  "validate_weights criteria =
     (if criteria = [] then (False, [Txt ''No criteria provided''])
      else
        let total_weight = py_sum (map get_weight criteria)
        in if dec_less (Dec 1 (- 2)) (dec_abs (dec_sub total_weight (Dec 100 0)))
           then (False, [Txt ''Weights must sum to 100%. Current sum: '',
                         DecPiece total_weight, Txt ''%''])
           else check_weights 0 criteria)"

text \<open>
  \<^verbatim>\<open>score_map = {s['criterion_id']: s['score'] for s in scores}\<close>: a later entry
  overwrites an earlier one with the same key.
\<close>

definition score_map :: "score_entry list \<Rightarrow> (int \<rightharpoonup> decimal)" where
  "score_map scores = foldl (\<lambda>m s. m(criterion_id s \<mapsto> score s)) Map.empty scores"

definition score_of :: "(int \<rightharpoonup> decimal) \<Rightarrow> int \<Rightarrow> decimal" where
  "score_of m k = (case m k of None \<Rightarrow> Dec 0 0 | Some v \<Rightarrow> v)"

definition normalized_score :: "decimal \<Rightarrow> decimal \<Rightarrow> py_error + decimal" where
  "normalized_score sc mp =
     (if dec_less (Dec 0 0) mp then dec_div sc mp else Inr (Dec 0 0))"

definition weighted_value :: "decimal \<Rightarrow> decimal \<Rightarrow> decimal \<Rightarrow> int \<Rightarrow> py_error + decimal" where
  "weighted_value sc mp w ms =
     and_then (normalized_score sc mp) (\<lambda>n.
     and_then (dec_div w (Dec 100 0)) (\<lambda>f.
     Inr (dec_mul (dec_mul n f) (Dec ms 0))))"

text \<open>
  The \<^verbatim>\<open>for criterion in criteria\<close> loop of \<^verbatim>\<open>calculate_weighted_score\<close>, with its
  two accumulators \<^verbatim>\<open>weighted_breakdown\<close> and \<^verbatim>\<open>weighted_sum\<close>.
\<close>

fun score_loop ::
  "(int \<rightharpoonup> decimal) \<Rightarrow> int \<Rightarrow> criterion list \<Rightarrow> detail list \<Rightarrow> decimal
     \<Rightarrow> py_error + (detail list \<times> decimal)" where
  "score_loop sm ms [] bd ws = Inr (bd, ws)"
| "score_loop sm ms (c # cs) bd ws =
     (let w = get_weight c;
          mp = get_max_points c;
          sc = score_of sm (id' c)
      in and_then (weighted_value sc mp w ms) (\<lambda>wv.
         and_then (quantize wv) (\<lambda>q.
           score_loop sm ms cs
             (bd @ [\<lparr>criterion_id' = id' c, criterion_text = get_text c, raw_score = sc,
                     max_points' = mp, weight' = w, weighted_score = q\<rparr>])
             (dec_add ws wv))))"

text \<open>
  \<^verbatim>\<open>final_score / max_score\<close> divides a float by an int; the int is converted to float
  first, which raises OverflowError from \<open>2 ^ 1024 - 2 ^ 970\<close> on.
\<close>

definition calculate_weighted_score ::
  "score_entry list \<Rightarrow> criterion list \<Rightarrow> int \<Rightarrow> py_error + weighted_result" where
  "calculate_weighted_score scores criteria ms =
     and_then (score_loop (score_map scores) ms criteria [] (Dec 0 0)) (\<lambda>(bd, ws).
     and_then (quantize ws) (\<lambda>final_score.
       if ms > 0 \<and> ms \<ge> 2 ^ 1024 - 2 ^ 970 then Inl OverflowError
       else Inr \<lparr>weighted_total = final_score, breakdown = bd, max_score = ms\<rparr>))"

text \<open>\<^verbatim>\<open>weights[0] += diff\<close> raises IndexError on an empty list.\<close>

definition add_to_first :: "decimal list \<Rightarrow> decimal \<Rightarrow> py_error + decimal list" where
  "add_to_first weights diff =
     (case weights of [] \<Rightarrow> Inl IndexError | w # ws \<Rightarrow> Inr (dec_add w diff # ws))"

definition distribute_weights_evenly :: "int \<Rightarrow> py_error + decimal list" where
  "distribute_weights_evenly num_criteria =
     (if num_criteria \<le> 0 then Inr []
      else
        and_then (dec_div (Dec 100 0) (Dec num_criteria 0)) (\<lambda>base_weight.
          let weights = replicate (nat num_criteria) base_weight;
              total = py_sum weights
          in and_then
               (if \<not> dec_eq total (Dec 100 0)
                then add_to_first weights (dec_sub (Dec 100 0) total)
                else Inr weights)
               quantize_all))"

text \<open>
  \<^verbatim>\<open>importance_levels\<close> is an optional dict from criterion id to a label; it is
  modelled by its items. \<^verbatim>\<open>not importance_levels\<close> holds for \<^verbatim>\<open>None\<close> and for the
  empty dict.
\<close>

definition importance_multipliers :: "string \<Rightarrow> decimal" where
  "importance_multipliers importance =
     (if importance = ''high'' then Dec 2 0
      else if importance = ''medium'' then Dec 1 0
      else if importance = ''low'' then Dec 5 (- 1)
      else Dec 1 0)"

definition multiplier_of :: "(int \<times> string) list \<Rightarrow> criterion \<Rightarrow> decimal" where
  "multiplier_of levels c =
     importance_multipliers (case map_of levels (id' c) of None \<Rightarrow> ''medium'' | Some l \<Rightarrow> l)"

fun suggest_loop ::
  "(int \<times> string) list \<Rightarrow> decimal \<Rightarrow> criterion list \<Rightarrow> py_error + decimal list" where
  "suggest_loop levels total_units [] = Inr []"
| "suggest_loop levels total_units (c # cs) =
     and_then (dec_div (multiplier_of levels c) total_units) (\<lambda>share.
     and_then (quantize (dec_mul share (Dec 100 0))) (\<lambda>w.
     and_then (suggest_loop levels total_units cs) (\<lambda>ws. Inr (w # ws))))"

definition get_weight_suggestions ::
  "criterion list \<Rightarrow> (int \<times> string) list option \<Rightarrow> py_error + decimal list" where
  "get_weight_suggestions criteria importance_levels =
     (case importance_levels of
        None \<Rightarrow> distribute_weights_evenly (int (length criteria))
      | Some levels \<Rightarrow>
          if levels = [] then distribute_weights_evenly (int (length criteria))
          else
            let total_units =
                  foldl (\<lambda>t c. dec_add t (multiplier_of levels c)) (Dec 0 0) criteria
            in and_then (suggest_loop levels total_units criteria) (\<lambda>weights.
                 let total = py_sum weights
                 in if \<not> dec_eq total (Dec 100 0)
                    then add_to_first weights (dec_sub (Dec 100 0) total)
                    else Inr weights))"

section \<open>The anonymization filter\<close>

text \<open>
  \<^verbatim>\<open>anonymity.py\<close> works on dictionaries and lists that the caller still holds, and
  \<^verbatim>\<open>dict.copy()\<close> is shallow, so the objects are kept in an explicit store. A value is
  an immediate (\<^verbatim>\<open>None\<close>, a bool, an int, a string) or a reference to an object of the
  store; an object is a dict with string keys, kept in insertion order, or a list. A new
  object is allocated at the end of the store. A reference beyond the store does not
  occur in a Python state; the operations treat it like a value without the method.
\<close>

datatype pyval = PNone | PBool bool | PInt int | PStr string | PRef nat

datatype pyobj = ODict "(string \<times> pyval) list" | OList "pyval list"

type_synonym heap = "pyobj list"

definition lookup :: "heap \<Rightarrow> pyval \<Rightarrow> pyobj option" where
  "lookup h v = (case v of PRef a \<Rightarrow> if a < length h then Some (h ! a) else None | _ \<Rightarrow> None)"

definition alloc :: "heap \<Rightarrow> pyobj \<Rightarrow> pyval \<times> heap" where
  "alloc h ob = (PRef (length h), h @ [ob])"

text \<open>\<^verbatim>\<open>d[key] = x\<close> on a dict: an existing key keeps its place, a new key goes last.\<close>

fun dict_set :: "string \<Rightarrow> pyval \<Rightarrow> (string \<times> pyval) list \<Rightarrow> (string \<times> pyval) list" where
  "dict_set key x [] = [(key, x)]"
| "dict_set key x ((k, v) # d) = (if k = key then (key, x) # d else (k, v) # dict_set key x d)"

fun starts_with :: "string \<Rightarrow> string \<Rightarrow> bool" where
  "starts_with [] s = True"
| "starts_with (c # cs) [] = False"
| "starts_with (c # cs) (d # ds) = (c = d \<and> starts_with cs ds)"

fun contains_str :: "string \<Rightarrow> string \<Rightarrow> bool" where
  "contains_str key [] = (key = [])"
| "contains_str key (c # s) = (starts_with key (c # s) \<or> contains_str key s)"

text \<open>\<^verbatim>\<open>v.copy()\<close>: dicts and lists have the method, the immediates do not.\<close>

definition py_copy :: "heap \<Rightarrow> pyval \<Rightarrow> py_error + (pyval \<times> heap)" where
  "py_copy h v = (case lookup h v of None \<Rightarrow> Inl AttributeError | Some ob \<Rightarrow> Inr (alloc h ob))"

text \<open>
  \<^verbatim>\<open>key in v\<close> for a string \<open>key\<close>: a key of a dict, an element of a list, a substring
  of a string; the other immediates are not iterable.
\<close>

definition py_contains :: "heap \<Rightarrow> string \<Rightarrow> pyval \<Rightarrow> py_error + bool" where
  "py_contains h key v =
     (case lookup h v of
        Some (ODict d) \<Rightarrow> Inr (map_of d key \<noteq> None)
      | Some (OList xs) \<Rightarrow> Inr (PStr key \<in> set xs)
      | None \<Rightarrow> (case v of PStr s \<Rightarrow> Inr (contains_str key s) | _ \<Rightarrow> Inl TypeError))"

text \<open>\<^verbatim>\<open>v[key]\<close> for a string \<open>key\<close>: only a dict can be indexed by a string.\<close>

definition py_getitem :: "heap \<Rightarrow> pyval \<Rightarrow> string \<Rightarrow> py_error + pyval" where
  "py_getitem h v key =
     (case lookup h v of
        Some (ODict d) \<Rightarrow> (case map_of d key of None \<Rightarrow> Inl KeyError | Some x \<Rightarrow> Inr x)
      | _ \<Rightarrow> Inl TypeError)"

definition py_setitem :: "heap \<Rightarrow> pyval \<Rightarrow> string \<Rightarrow> pyval \<Rightarrow> py_error + heap" where
  "py_setitem h v key x =
     (case v of
        PRef a \<Rightarrow>
          (case lookup h v of
             Some (ODict d) \<Rightarrow> Inr (h[a := ODict (dict_set key x d)])
           | _ \<Rightarrow> Inl TypeError)
      | _ \<Rightarrow> Inl TypeError)"

text \<open>
  \<^verbatim>\<open>for x in v\<close>: the elements of a list, the keys of a dict, the characters of a
  string. No list is modified by this module, so a loop sees the elements its list had
  at the start.
\<close>

definition py_iter :: "heap \<Rightarrow> pyval \<Rightarrow> py_error + pyval list" where
  "py_iter h v =
     (case lookup h v of
        Some (ODict d) \<Rightarrow> Inr (map (\<lambda>kv. PStr (fst kv)) d)
      | Some (OList xs) \<Rightarrow> Inr xs
      | None \<Rightarrow> (case v of PStr s \<Rightarrow> Inr (map (\<lambda>c. PStr [c]) s) | _ \<Rightarrow> Inl TypeError))"

text \<open>
  \<^verbatim>\<open>str.lower\<close> on the letters \<open>A\<close> to \<open>Z\<close>. Role strings are modelled over ASCII: no
  string with another character lowers to \<^verbatim>\<open>"instructor"\<close> or \<^verbatim>\<open>"admin"\<close>.
\<close>

definition lower_char :: "char \<Rightarrow> char" where
  "lower_char c =
     (let n = (of_char c :: nat) in if 65 \<le> n \<and> n \<le> 90 then char_of (n + 32) else c)"

definition lower :: "string \<Rightarrow> string" where
  "lower s = map lower_char s"

definition privileged_roles :: "string list" where
  "privileged_roles = [''instructor'', ''admin'']"

text \<open>
  \<^verbatim>\<open>_can_view_evaluator_identity\<close> returns
  \<^verbatim>\<open>requester_role and requester_role.lower() in privileged_roles\<close>; its callers use
  the truth value, which is false for \<^verbatim>\<open>None\<close> and for the empty string.
\<close>

definition can_view_evaluator_identity :: "string option \<Rightarrow> bool" where
  "can_view_evaluator_identity requester_role =
     (case requester_role of
        None \<Rightarrow> False
      | Some r \<Rightarrow> r \<noteq> [] \<and> lower r \<in> set privileged_roles)"

definition should_anonymize_for_user :: "string option \<Rightarrow> bool" where
  "should_anonymize_for_user requester_role = (\<not> can_view_evaluator_identity requester_role)"

definition sentinel :: "(string \<times> pyval) list" where
  "sentinel = [(''id'', PStr ''anonymous''), (''name'', PStr ''Anonymous''),
               (''email'', PStr ''anonymous@hidden.com'')]"

definition anonymize_evaluator ::
  "heap \<Rightarrow> pyval \<Rightarrow> string option \<Rightarrow> py_error + (pyval \<times> heap)" where
  "anonymize_evaluator h evaluation requester_role =
     and_then (py_copy h evaluation) (\<lambda>(result, h1).
       if \<not> can_view_evaluator_identity requester_role then
         and_then (py_contains h1 ''evaluator'' result) (\<lambda>has_evaluator.
         and_then
           (if has_evaluator
            then (let (s, h2) = alloc h1 (ODict sentinel)
                  in py_setitem h2 result ''evaluator'' s)
            else Inr h1) (\<lambda>h3.
         and_then (py_contains h3 ''evaluator_id'' result) (\<lambda>has_id.
         and_then
           (if has_id then py_setitem h3 result ''evaluator_id_hidden'' (PBool True)
            else Inr h3) (\<lambda>h4.
         Inr (result, h4)))))
       else Inr (result, h1))"

fun anonymize_each ::
  "heap \<Rightarrow> pyval list \<Rightarrow> string option \<Rightarrow> py_error + (pyval list \<times> heap)" where
  "anonymize_each h [] requester_role = Inr ([], h)"
| "anonymize_each h (evaluation # rest) requester_role =
     and_then (anonymize_evaluator h evaluation requester_role) (\<lambda>(r, h1).
     and_then (anonymize_each h1 rest requester_role) (\<lambda>(rs, h2).
     Inr (r # rs, h2)))"

text \<open>The list comprehension builds a new list of the anonymized records.\<close>

definition anonymize_evaluation_list ::
  "heap \<Rightarrow> pyval \<Rightarrow> string option \<Rightarrow> py_error + (pyval \<times> heap)" where
  "anonymize_evaluation_list h evaluations requester_role =
     and_then (py_iter h evaluations) (\<lambda>items.
     and_then (anonymize_each h items requester_role) (\<lambda>(rs, h1).
     Inr (alloc h1 (OList rs))))"

text \<open>
  \<^verbatim>\<open>if key in obj: obj[key] = anonymize_evaluation_list(obj[key], ...)\<close>, the statement
  that \<^verbatim>\<open>anonymize_report_data\<close> applies to the copy of the report and to every
  member dictionary.
\<close>

definition anonymize_key :: "heap \<Rightarrow> pyval \<Rightarrow> string \<Rightarrow> string option \<Rightarrow> py_error + heap" where
  "anonymize_key h obj key requester_role =
     and_then (py_contains h key obj) (\<lambda>present.
       if present then
         and_then (py_getitem h obj key) (\<lambda>evaluations.
         and_then (anonymize_evaluation_list h evaluations requester_role) (\<lambda>(lst, h1).
         py_setitem h1 obj key lst))
       else Inr h)"

fun anonymize_members :: "heap \<Rightarrow> pyval list \<Rightarrow> string option \<Rightarrow> py_error + heap" where
  "anonymize_members h [] requester_role = Inr h"
| "anonymize_members h (member_data # rest) requester_role =
     and_then (anonymize_key h member_data ''evaluations'' requester_role) (\<lambda>h1.
     anonymize_members h1 rest requester_role)"

definition anonymize_members_of :: "heap \<Rightarrow> pyval \<Rightarrow> string option \<Rightarrow> py_error + heap" where
  "anonymize_members_of h obj requester_role =
     and_then (py_contains h ''members'' obj) (\<lambda>present.
       if present then
         and_then (py_getitem h obj ''members'') (\<lambda>members.
         and_then (py_iter h members) (\<lambda>ms.
         anonymize_members h ms requester_role))
       else Inr h)"

fun anonymize_teams :: "heap \<Rightarrow> pyval list \<Rightarrow> string option \<Rightarrow> py_error + heap" where
  "anonymize_teams h [] requester_role = Inr h"
| "anonymize_teams h (team_data # rest) requester_role =
     and_then (anonymize_members_of h team_data requester_role) (\<lambda>h1.
     anonymize_teams h1 rest requester_role)"

definition anonymize_report_data ::
  "heap \<Rightarrow> pyval \<Rightarrow> string option \<Rightarrow> py_error + (pyval \<times> heap)" where
  "anonymize_report_data h report_data requester_role =
     and_then (py_copy h report_data) (\<lambda>(result, h0).
     and_then (anonymize_key h0 result ''evaluations'' requester_role) (\<lambda>h1.
     and_then (anonymize_key h1 result ''detailed_evaluations'' requester_role) (\<lambda>h2.
     and_then (anonymize_members_of h2 result requester_role) (\<lambda>h3.
     and_then (py_contains h3 ''teams'' result) (\<lambda>present.
     and_then
       (if present then
          and_then (py_getitem h3 result ''teams'') (\<lambda>teams.
          and_then (py_iter h3 teams) (\<lambda>ts.
          anonymize_teams h3 ts requester_role))
        else Inr h3) (\<lambda>h4.
     Inr (result, h4)))))))"

text \<open>
  The score of the last entry of \<open>scores\<close> whose \<^verbatim>\<open>criterion_id\<close> is \<open>k\<close>, if there
  is one: what "the last score entry listed for a criterion id" means.
\<close>

definition last_score :: "score_entry list \<Rightarrow> int \<Rightarrow> decimal option" where
  "last_score scores k = map_option score (find (\<lambda>s. criterion_id s = k) (rev scores))"

section \<open>What the arithmetic is measured against\<close>

text \<open>
  The definitions of this section are not part of the program: they say, on exact
  rationals, what it means to round. \<open>rhe\<close> rounds a rational to the nearest integer,
  ties to the even one.
\<close>

definition rhe :: "rat \<Rightarrow> int" where
  "rhe x = (let f = \<lfloor>x\<rfloor>; r = x - of_int f
            in if r < 1 / 2 then f else if r > 1 / 2 then f + 1
               else if even f then f else f + 1)"

text \<open>
  A positive rational \<open>x\<close> with \<open>10 ^ (A - 1) \<le> x < 10 ^ A\<close> has its first significant
  digit at position \<open>A\<close>; rounded to 28 significant digits it is a multiple of
  \<open>10 ^ (A - 28)\<close>. \<open>rounds28 x y\<close> says that \<open>y\<close> is \<open>x\<close> rounded to 28 significant
  digits, ties to even, the sign kept: what the General Decimal Arithmetic
  specification asks of every operation at precision 28 with ROUND_HALF_EVEN.
\<close>

definition in_decade :: "int \<Rightarrow> rat \<Rightarrow> bool" where
  "in_decade A x \<longleftrightarrow> 10 powi (A - 1) \<le> x \<and> x < 10 powi A"

definition round_at :: "int \<Rightarrow> rat \<Rightarrow> rat" where
  "round_at A x = of_int (rhe (x / 10 powi (A - 28))) * 10 powi (A - 28)"

definition rounds28 :: "rat \<Rightarrow> rat \<Rightarrow> bool" where
  "rounds28 x y \<longleftrightarrow>
     (x = 0 \<and> y = 0) \<or> (\<exists>A. in_decade A \<bar>x\<bar> \<and> y = sgn x * round_at A \<bar>x\<bar>)"




text \<open>
  Three weights, 50.005, 50.005 and 1E-28, each in the range 0 to 100; their sum is
  \<open>100.01 + 1E-28\<close>. And the weights 40, 35, 25 of the repository's test
  \<^verbatim>\<open>test_validate_weights_sum_to_100\<close>.
\<close>

definition tiny_excess :: "criterion list" where
  "tiny_excess =
     [\<lparr>id' = 1, text' = None, weight = Some (Dec 50005 (- 3)), max_points = None\<rparr>,
      \<lparr>id' = 2, text' = None, weight = Some (Dec 50005 (- 3)), max_points = None\<rparr>,
      \<lparr>id' = 3, text' = None, weight = Some (Dec 1 (- 28)), max_points = None\<rparr>]"

definition weights_40_35_25 :: "criterion list" where
  "weights_40_35_25 =
     [\<lparr>id' = 1, text' = None, weight = Some (Dec 40 0), max_points = None\<rparr>,
      \<lparr>id' = 2, text' = None, weight = Some (Dec 35 0), max_points = None\<rparr>,
      \<lparr>id' = 3, text' = None, weight = Some (Dec 25 0), max_points = None\<rparr>]"

section \<open>Example inputs\<close>

text \<open>
  A team report as the report endpoints build it: one member with one evaluation, whose
  evaluator is Alice. The report is the object at address 5, the member dictionary the
  object at address 3.
\<close>

definition team_report_store :: heap where
  "team_report_store =
     [ODict [(''id'', PInt 7), (''name'', PStr ''Alice'')],
      ODict [(''evaluator_id'', PInt 7), (''evaluator'', PRef 0)],
      OList [PRef 1],
      ODict [(''evaluations'', PRef 2)],
      OList [PRef 3],
      ODict [(''members'', PRef 4)]]"

definition three_criteria :: "criterion list" where
  "three_criteria =
     [\<lparr>id' = 1, text' = Some ''A'', weight = None, max_points = None\<rparr>,
      \<lparr>id' = 2, text' = Some ''B'', weight = None, max_points = None\<rparr>,
      \<lparr>id' = 3, text' = Some ''C'', weight = None, max_points = None\<rparr>]"

definition all_medium :: "(int \<times> string) list" where
  "all_medium = [(1, ''medium''), (2, ''medium''), (3, ''medium'')]"

text \<open>
  One criterion worth the whole score, a score list that mentions it twice (and a
  criterion the form does not have once), and the list of its last entry alone.
\<close>

definition one_criterion :: "criterion list" where
  "one_criterion =
     [\<lparr>id' = 1, text' = Some ''Quality'', weight = Some (Dec 100 0),
       max_points = Some (Dec 10 0)\<rparr>]"

definition scores_twice :: "score_entry list" where
  "scores_twice =
     [\<lparr>criterion_id = 1, score = Dec 5 0\<rparr>, \<lparr>criterion_id = 9, score = Dec 3 0\<rparr>,
      \<lparr>criterion_id = 1, score = Dec 8 0\<rparr>]"

definition scores_once :: "score_entry list" where
  "scores_once = [\<lparr>criterion_id = 1, score = Dec 8 0\<rparr>]"

section \<open>Evaluating the arithmetic\<close>

lemma reduce_exact_numeral:
  "reduce_exact (numeral n) c e =
     (if c mod 10 = 0 then reduce_exact (pred_numeral n) (c div 10) (e + 1) else (c, e))"
  by (simp add: numeral_eq_Suc)

lemmas dec_eval = dec_div_def dec_fix_def prec_def ndigits.simps round_half_even_def
  round_half_up_def Let_def dec_add_def dec_sub_def dec_neg_def dec_mul_def dec_abs_def
  dec_less_def dec_eq_def quantize_def py_sum_def and_then_def reduce_exact_numeral

lemmas py_defs = and_then_def py_copy_def py_contains_def py_getitem_def py_setitem_def
  py_iter_def lookup_def alloc_def

lemma third: "dec_div (Dec 100 0) (Dec 3 0) = Inr (Dec 3333333333333333333333333333 (- 26))"
  by (simp add: dec_eval)

lemma sum_thirds:
  "py_sum [Dec 3333333333333333333333333333 (- 26), Dec 3333333333333333333333333333 (- 26),
           Dec 3333333333333333333333333333 (- 26)] = Dec 9999999999999999999999999999 (- 26)"
  by (simp add: dec_eval)

lemma sum_thirds_not_100:
  "dec_eq (Dec 9999999999999999999999999999 (- 26)) (Dec 100 0) = False"
  by (simp add: dec_eval)

lemma residual_thirds:
  "dec_sub (Dec 100 0) (Dec 9999999999999999999999999999 (- 26)) = Dec 1 (- 26)"
  by (simp add: dec_eval)

lemma third_plus_residual:
  "dec_add (Dec 3333333333333333333333333333 (- 26)) (Dec 1 (- 26)) =
     Dec 3333333333333333333333333334 (- 26)"
  by (simp add: dec_eval)

lemma quantize_third_up:
  "quantize (Dec 3333333333333333333333333334 (- 26)) = Inr (Dec 3333 (- 2))"
  by (simp add: dec_eval)

lemma quantize_third:
  "quantize (Dec 3333333333333333333333333333 (- 26)) = Inr (Dec 3333 (- 2))"
  by (simp add: dec_eval)

lemma distribute_3:
  "distribute_weights_evenly 3 = Inr [Dec 3333 (- 2), Dec 3333 (- 2), Dec 3333 (- 2)]"
  by (simp add: distribute_weights_evenly_def third sum_thirds sum_thirds_not_100
      residual_thirds third_plus_residual quantize_third_up quantize_third add_to_first_def
      and_then_def numeral_3_eq_3 Let_def)

lemma sum_3333: "py_sum [Dec 3333 (- 2), Dec 3333 (- 2), Dec 3333 (- 2)] = Dec 9999 (- 2)"
  by (simp add: dec_eval)

section \<open>The anonymization filter: single records\<close>



lemma student_cannot_view: "can_view_evaluator_identity (Some ''student'') = False"
  by (simp add: can_view_evaluator_identity_def lower_def lower_char_def privileged_roles_def)





section \<open>The anonymization filter: reports\<close>

text \<open>
  C7 fails for \<^verbatim>\<open>anonymize_report_data\<close>. On the team report of
  \<open>team_report_store\<close> and the role \<^verbatim>\<open>"student"\<close>, the call returns a copy of the
  report (address 6) that shares the member dictionary with its argument, and the loop
  over \<^verbatim>\<open>result["members"]\<close> assigns to that shared dictionary: after the call the
  member dictionary of the argument (address 3) refers to the anonymized list
  (address 9) and no longer to the caller's list (address 2).
\<close>

theorem anonymize_report_data_mutates_member:
  "anonymize_report_data team_report_store (PRef 5) (Some ''student'') =
     Inr (PRef 6,
       [ODict [(''id'', PInt 7), (''name'', PStr ''Alice'')],
        ODict [(''evaluator_id'', PInt 7), (''evaluator'', PRef 0)],
        OList [PRef 1],
        ODict [(''evaluations'', PRef 9)],
        OList [PRef 3],
        ODict [(''members'', PRef 4)],
        ODict [(''members'', PRef 4)],
        ODict [(''evaluator_id'', PInt 7), (''evaluator'', PRef 8),
               (''evaluator_id_hidden'', PBool True)],
        ODict sentinel,
        OList [PRef 7]])
   \<and> team_report_store ! 3 = ODict [(''evaluations'', PRef 2)]"
  by (simp add: anonymize_report_data_def anonymize_key_def anonymize_members_of_def
      anonymize_evaluation_list_def anonymize_evaluator_def team_report_store_def py_defs
      student_cannot_view)

section \<open>The calculator: distributing weights\<close>

text \<open>
  C2 fails for \<open>n = 3\<close>. \<^verbatim>\<open>distribute_weights_evenly(3)\<close> adds the residual of the
  28-digit shares to the first share before the shares are quantized, and the
  quantization removes it again: the three weights are 33.33 each and sum to 99.99.
\<close>

theorem distribute_weights_evenly_3_sum:
  "distribute_weights_evenly 3 = Inr [Dec 3333 (- 2), Dec 3333 (- 2), Dec 3333 (- 2)]
   \<and> sum_list (map dec_val [Dec 3333 (- 2), Dec 3333 (- 2), Dec 3333 (- 2)]) = 9999 / 100
   \<and> py_sum [Dec 3333 (- 2), Dec 3333 (- 2), Dec 3333 (- 2)] = Dec 9999 (- 2)"
  by (simp add: distribute_3 sum_3333 dec_val_def power_int_minus)

text \<open>
  C6 fails for \<^verbatim>\<open>get_weight_suggestions([], {1: "high"})\<close>: with no criterion the
  list of weights is empty, its sum \<open>0\<close> differs from \<open>100\<close>, and
  \<^verbatim>\<open>weights[0] += diff\<close> raises IndexError.
\<close>

theorem get_weight_suggestions_empty_criteria:
  "get_weight_suggestions [] (Some [(1, ''high'')]) = Inl IndexError"
  by (simp add: get_weight_suggestions_def add_to_first_def dec_eval)

lemma units_3:
  "foldl (\<lambda>t c. dec_add t (multiplier_of all_medium c)) (Dec 0 0) three_criteria = Dec 3 0"
  by (simp add: three_criteria_def all_medium_def multiplier_of_def importance_multipliers_def
      dec_eval)

lemma mult_medium: "c \<in> set three_criteria \<Longrightarrow> multiplier_of all_medium c = Dec 1 0"
  by (auto simp add: three_criteria_def all_medium_def multiplier_of_def
      importance_multipliers_def)

lemma share_3: "dec_div (Dec 1 0) (Dec 3 0) = Inr (Dec 3333333333333333333333333333 (- 28))"
  by (simp add: dec_eval)

lemma share_3_pct:
  "dec_mul (Dec 3333333333333333333333333333 (- 28)) (Dec 100 0) =
     Dec 3333333333333333333333333333 (- 26)"
  by (simp add: dec_eval)

lemma suggest_3:
  "suggest_loop all_medium (Dec 3 0) three_criteria =
     Inr [Dec 3333 (- 2), Dec 3333 (- 2), Dec 3333 (- 2)]"
  by (simp add: three_criteria_def mult_medium share_3 share_3_pct quantize_third and_then_def)

lemma suggestions_3:
  "get_weight_suggestions three_criteria (Some all_medium) =
     Inr [Dec 3334 (- 2), Dec 3333 (- 2), Dec 3333 (- 2)]"
proof -
  have a: "all_medium \<noteq> []" by (simp add: all_medium_def)
  have b: "dec_eq (Dec 9999 (- 2)) (Dec 100 0) = False" by (simp add: dec_eval)
  have c: "dec_add (Dec 3333 (- 2)) (dec_sub (Dec 100 0) (Dec 9999 (- 2))) = Dec 3334 (- 2)"
    by (simp add: dec_eval)
  show ?thesis
    by (simp add: get_weight_suggestions_def a units_3 suggest_3 sum_3333 b c add_to_first_def
        and_then_def)
qed

text \<open>
  C10. With \<^verbatim>\<open>importance_levels\<close> \<^verbatim>\<open>None\<close> or empty, \<^verbatim>\<open>get_weight_suggestions\<close>
  returns \<^verbatim>\<open>distribute_weights_evenly(len(criteria))\<close>, for every criteria list. The
  fallback can differ from the result for an all-\<^verbatim>\<open>"medium"\<close> mapping: for the three
  criteria of \<open>three_criteria\<close> the fallback is 33.33, 33.33, 33.33 (residual added before
  the quantization), the all-medium result is 33.34, 33.33, 33.33 (residual added after).
\<close>

theorem get_weight_suggestions_fallback:
  "(\<forall>criteria.
      get_weight_suggestions criteria None = distribute_weights_evenly (int (length criteria))
      \<and> get_weight_suggestions criteria (Some []) =
          distribute_weights_evenly (int (length criteria)))
   \<and> list_all (\<lambda>c. map_of all_medium (id' c) = Some ''medium'') three_criteria
   \<and> get_weight_suggestions three_criteria None =
       Inr [Dec 3333 (- 2), Dec 3333 (- 2), Dec 3333 (- 2)]
   \<and> get_weight_suggestions three_criteria (Some all_medium) =
       Inr [Dec 3334 (- 2), Dec 3333 (- 2), Dec 3333 (- 2)]"
proof -
  have "length three_criteria = 3" by (simp add: three_criteria_def)
  then have "get_weight_suggestions three_criteria None =
      Inr [Dec 3333 (- 2), Dec 3333 (- 2), Dec 3333 (- 2)]"
    by (simp add: get_weight_suggestions_def distribute_3)
  moreover have "list_all (\<lambda>c. map_of all_medium (id' c) = Some ''medium'') three_criteria"
    by (simp add: three_criteria_def all_medium_def)
  ultimately show ?thesis
    by (simp add: suggestions_3) (simp add: get_weight_suggestions_def)
qed

text \<open>The fallback at the empty criteria list: both calls return the empty list.\<close>

theorem get_weight_suggestions_fallback_witness:
  "get_weight_suggestions [] None = Inr [] \<and> get_weight_suggestions [] (Some []) = Inr []"
proof -
  have "distribute_weights_evenly (int (length ([] :: criterion list))) = Inr []"
    by (simp add: distribute_weights_evenly_def)
  with get_weight_suggestions_fallback show ?thesis
    by metis
qed

section \<open>The calculator: which score entries count\<close>

lemma score_map_snoc:
  "score_map (scores @ [s]) = (score_map scores)(criterion_id s \<mapsto> score s)"
  by (simp add: score_map_def)

lemma score_map_last: "score_map scores k = last_score scores k"
proof (induction scores rule: rev_induct)
  case Nil
  show ?case by (simp add: score_map_def last_score_def)
next
  case (snoc s scores)
  then show ?case by (simp add: score_map_snoc last_score_def)
qed

lemma score_loop_cong:
  assumes "\<forall>c\<in>set criteria. sm (id' c) = sm' (id' c)"
  shows "score_loop sm ms criteria bd ws = score_loop sm' ms criteria bd ws"
  using assms
proof (induction criteria arbitrary: bd ws)
  case Nil
  show ?case by simp
next
  case (Cons c cs)
  then have "score_of sm (id' c) = score_of sm' (id' c)"
    by (simp add: score_of_def)
  with Cons show ?case by (simp add: Let_def)
qed

lemma score_loop_ids:
  "score_loop sm ms criteria bd ws = Inr (bd', ws') \<Longrightarrow>
     map criterion_id' bd' = map criterion_id' bd @ map id' criteria"
proof (induction criteria arbitrary: bd ws)
  case Nil
  then show ?case by simp
next
  case (Cons c cs)
  from Cons.prems obtain wv q where
    "score_loop sm ms cs
       (bd @ [\<lparr>criterion_id' = id' c, criterion_text = get_text c,
              raw_score = score_of sm (id' c), max_points' = get_max_points c,
              weight' = get_weight c, weighted_score = q\<rparr>])
       (dec_add ws wv) = Inr (bd', ws')"
    by (auto simp add: Let_def and_then_def split: sum.splits)
  from Cons.IH [OF this] show ?case by simp
qed

lemma last_score_filter:
  "P k \<Longrightarrow> last_score (filter (\<lambda>s. P (criterion_id s)) scores) k = last_score scores k"
  unfolding last_score_def
  by (induction scores rule: rev_induct) auto

lemma calculate_cong:
  assumes "\<forall>c\<in>set criteria. last_score scores (id' c) = last_score scores' (id' c)"
  shows "calculate_weighted_score scores criteria ms =
     calculate_weighted_score scores' criteria ms"
proof -
  have "\<forall>c\<in>set criteria. score_map scores (id' c) = score_map scores' (id' c)"
    using assms by (simp add: score_map_last)
  from score_loop_cong [OF this] show ?thesis
    by (simp add: calculate_weighted_score_def)
qed

lemma calculate_ids:
  assumes "calculate_weighted_score scores criteria ms = Inr r"
  shows "map criterion_id' (breakdown r) = map id' criteria"
proof -
  from assms obtain bd ws where
    l: "score_loop (score_map scores) ms criteria [] (Dec 0 0) = Inr (bd, ws)"
    and "breakdown r = bd"
    by (auto simp add: calculate_weighted_score_def and_then_def split: sum.splits if_splits)
  with score_loop_ids [OF l] show ?thesis by simp
qed

text \<open>
  C9. Two score lists whose last entries agree on every criterion id of the criteria
  list give the same result (a value or an exception); in particular the entries whose
  \<^verbatim>\<open>criterion_id\<close> matches no criterion can be dropped, and of several entries with
  the same id only the last one counts. When the call returns, the breakdown has one
  entry per criterion, in the order of the criteria list.
\<close>

theorem calculate_weighted_score_last_entries:
  "((\<forall>c\<in>set criteria. last_score scores (id' c) = last_score scores' (id' c)) \<longrightarrow>
      calculate_weighted_score scores criteria ms =
        calculate_weighted_score scores' criteria ms)
   \<and> calculate_weighted_score
         (filter (\<lambda>s. criterion_id s \<in> id' ` set criteria) scores) criteria ms =
       calculate_weighted_score scores criteria ms
   \<and> (calculate_weighted_score scores criteria ms = Inr r \<longrightarrow>
        map criterion_id' (breakdown r) = map id' criteria)"
proof (intro conjI impI)
  assume "\<forall>c\<in>set criteria. last_score scores (id' c) = last_score scores' (id' c)"
  then show "calculate_weighted_score scores criteria ms =
      calculate_weighted_score scores' criteria ms"
    by (rule calculate_cong)
next
  have "\<forall>c\<in>set criteria.
      last_score (filter (\<lambda>s. criterion_id s \<in> id' ` set criteria) scores) (id' c)
      = last_score scores (id' c)"
    by (simp add: last_score_filter [where P = "\<lambda>k. k \<in> id' ` set criteria"])
  then show "calculate_weighted_score
       (filter (\<lambda>s. criterion_id s \<in> id' ` set criteria) scores) criteria ms =
      calculate_weighted_score scores criteria ms"
    by (rule calculate_cong)
next
  assume "calculate_weighted_score scores criteria ms = Inr r"
  then show "map criterion_id' (breakdown r) = map id' criteria"
    by (rule calculate_ids)
qed

lemma wv_8_of_10: "weighted_value (Dec 8 0) (Dec 10 0) (Dec 100 0) 100 = Inr (Dec 800 (- 1))"
proof -
  have a: "dec_div (Dec 8 0) (Dec 10 0) = Inr (Dec 8 (- 1))" by (simp add: dec_eval)
  have b: "dec_div (Dec 100 0) (Dec 100 0) = Inr (Dec 1 0)" by (simp add: dec_eval)
  have c: "dec_mul (dec_mul (Dec 8 (- 1)) (Dec 1 0)) (Dec 100 0) = Dec 800 (- 1)"
    by (simp add: dec_eval)
  have d: "dec_less (Dec 0 0) (Dec 10 0)" by (simp add: dec_eval)
  show ?thesis
    by (simp add: weighted_value_def normalized_score_def a b c d and_then_def)
qed

lemma quantize_80: "quantize (Dec 800 (- 1)) = Inr (Dec 8000 (- 2))"
  by (simp add: dec_eval)

lemma add_80: "dec_add (Dec 0 0) (Dec 800 (- 1)) = Dec 800 (- 1)"
  by (simp add: dec_eval)

lemma calculate_once:
  "calculate_weighted_score scores_once one_criterion 100 =
     Inr \<lparr>weighted_total = Dec 8000 (- 2),
          breakdown = [\<lparr>criterion_id' = 1, criterion_text = ''Quality'', raw_score = Dec 8 0,
                        max_points' = Dec 10 0, weight' = Dec 100 0,
                        weighted_score = Dec 8000 (- 2)\<rparr>],
          max_score = 100\<rparr>"
  by (simp add: calculate_weighted_score_def scores_once_def one_criterion_def score_map_def
      score_of_def get_weight_def get_max_points_def get_text_def wv_8_of_10 quantize_80 add_80
      and_then_def)

text \<open>
  The theorem at \<open>scores_twice\<close> and \<open>scores_once\<close>: the entry for the unknown criterion
  9 and the earlier entry for criterion 1 do not count, and both lists score 80.00.
\<close>

theorem calculate_weighted_score_last_entries_witness:
  "last_score scores_twice 1 = last_score scores_once 1
   \<and> calculate_weighted_score scores_twice one_criterion 100 =
       calculate_weighted_score scores_once one_criterion 100
   \<and> (\<exists>r. calculate_weighted_score scores_twice one_criterion 100 = Inr r
         \<and> weighted_total r = Dec 8000 (- 2) \<and> map criterion_id' (breakdown r) = [1])"
proof -
  have h: "\<forall>c\<in>set one_criterion.
      last_score scores_twice (id' c) = last_score scores_once (id' c)"
    by (simp add: one_criterion_def scores_twice_def scores_once_def last_score_def)
  from calculate_weighted_score_last_entries [of one_criterion scores_twice scores_once 100] h
  have e: "calculate_weighted_score scores_twice one_criterion 100 =
       calculate_weighted_score scores_once one_criterion 100"
    by blast
  from h have l: "last_score scores_twice 1 = last_score scores_once 1"
    by (simp add: one_criterion_def)
  show ?thesis
    using e l by (simp add: calculate_once)
qed

section \<open>The decimal arithmetic rounds correctly\<close>

lemma ndigits_ge_1: "1 \<le> ndigits m"
  by (subst ndigits.simps) simp

lemma ndigits_bounds:
  "0 < m \<Longrightarrow> 10 ^ (ndigits m - 1) \<le> m \<and> m < 10 ^ ndigits m"
proof (induction m rule: ndigits.induct)
  case (1 m)
  show ?case
  proof (cases "m < 10")
    case True
    with 1 show ?thesis by (subst ndigits.simps, subst (2) ndigits.simps) simp
  next
    case False
    then have p: "0 < m div 10" by simp
    from 1(1) [OF False p] have
      lo: "10 ^ (ndigits (m div 10) - 1) \<le> m div 10" and hi: "m div 10 < 10 ^ ndigits (m div 10)"
      by simp_all
    have n: "ndigits m = Suc (ndigits (m div 10))"
      using False by (subst ndigits.simps) simp
    from lo have "10 * 10 ^ (ndigits (m div 10) - 1) \<le> m" by simp
    moreover have "10 * 10 ^ (ndigits (m div 10) - 1) = (10::int) ^ ndigits (m div 10)"
      using ndigits_ge_1 [of "m div 10"] by (cases "ndigits (m div 10)") simp_all
    moreover from hi have "m < 10 * 10 ^ ndigits (m div 10)" by simp
    ultimately show ?thesis by (simp add: n)
  qed
qed

lemma ndigits_le_iff:
  assumes "0 \<le> m" "1 \<le> n"
  shows "ndigits m \<le> n \<longleftrightarrow> m < 10 ^ n"
proof (cases "m = 0")
  case True
  then show ?thesis using assms by (subst ndigits.simps) simp
next
  case False
  with assms have p: "0 < m" by simp
  note b = ndigits_bounds [OF p]
  show ?thesis
  proof
    assume "ndigits m \<le> n"
    then have "(10::int) ^ ndigits m \<le> 10 ^ n" by (simp add: power_increasing)
    with b show "m < 10 ^ n" by linarith
  next
    assume "m < 10 ^ n"
    with b have "(10::int) ^ (ndigits m - 1) < 10 ^ n" by linarith
    then have "ndigits m - 1 < n" by (simp add: power_strict_increasing_iff)
    then show "ndigits m \<le> n" by simp
  qed
qed

lemma rhe_of_int [simp]: "rhe (of_int n) = n"
  by (simp add: rhe_def)

lemma rhe_bounds: "of_int (rhe x) \<le> x + 1 / 2" "x - 1 / 2 \<le> of_int (rhe x)"
  unfolding rhe_def Let_def by (auto; linarith)+

lemma rhe_floor: "\<lfloor>x\<rfloor> \<le> rhe x" "rhe x \<le> \<lfloor>x\<rfloor> + 1"
  by (auto simp add: rhe_def Let_def)

lemma rhe_mono:
  assumes "x \<le> y"
  shows "rhe x \<le> rhe y"
proof (cases "\<lfloor>x\<rfloor> = \<lfloor>y\<rfloor>")
  case True
  with assms show ?thesis
    by (auto simp add: rhe_def Let_def)
next
  case False
  with assms have "\<lfloor>x\<rfloor> < \<lfloor>y\<rfloor>"
    by (simp add: floor_mono order.strict_iff_order)
  with rhe_floor(2) [of x] rhe_floor(1) [of y] show ?thesis by linarith
qed

lemma rhe_div:
  "round_half_even m k = rhe (of_int m / 10 ^ k)"
proof -
  let ?p = "(10::int) ^ k"
  have p: "0 < ?p" by simp
  have f: "\<lfloor>(of_int m :: rat) / 10 ^ k\<rfloor> = m div ?p"
    using floor_divide_of_int_eq [of m ?p, where ?'a = rat] by simp
  have "(of_int m :: rat) = of_int (m div ?p) * of_int ?p + of_int (m mod ?p)"
    by (simp only: of_int_mult [symmetric] of_int_add [symmetric] div_mult_mod_eq)
  then have "(of_int m :: rat) = of_int (m div ?p) * 10 ^ k + of_int (m mod ?p)"
    by simp
  then have r: "(of_int m :: rat) / 10 ^ k - of_int (m div ?p) = of_int (m mod ?p) / 10 ^ k"
    by (simp add: field_simps)
  have lt: "of_int (m mod ?p) / (10::rat) ^ k < 1 / 2 \<longleftrightarrow> 2 * (m mod ?p) < ?p"
  proof -
    have "of_int (m mod ?p) / (10::rat) ^ k < 1 / 2 \<longleftrightarrow> (of_int (2 * (m mod ?p)) :: rat) < of_int ?p"
      by (simp add: field_simps)
    then show ?thesis by (simp only: of_int_less_iff)
  qed
  have gt: "of_int (m mod ?p) / (10::rat) ^ k > 1 / 2 \<longleftrightarrow> 2 * (m mod ?p) > ?p"
  proof -
    have "of_int (m mod ?p) / (10::rat) ^ k > 1 / 2 \<longleftrightarrow> (of_int (2 * (m mod ?p)) :: rat) > of_int ?p"
      by (simp add: field_simps)
    then show ?thesis by (simp only: of_int_less_iff)
  qed
  show ?thesis
    unfolding rhe_def round_half_even_def Let_def f r lt gt
    by auto
qed

lemma p10_pos [simp]: "0 < (10::rat) powi e"
  by simp

lemma p10_add: "(10::rat) powi (a + b) = 10 powi a * 10 powi b"
  by (simp add: power_int_add)

lemma p10_diff: "(10::rat) powi (a - b) = 10 powi a / 10 powi b"
  by (simp add: power_int_diff)

lemma p10_le_iff: "(10::rat) powi a \<le> 10 powi b \<longleftrightarrow> a \<le> b"
proof
  assume "(10::rat) powi a \<le> 10 powi b"
  show "a \<le> b"
  proof (rule ccontr)
    assume "\<not> a \<le> b"
    then have "b < a" by simp
    then have "(10::rat) powi b < 10 powi a"
      by (intro power_int_strict_increasing) simp_all
    with \<open>(10::rat) powi a \<le> 10 powi b\<close> show False by simp
  qed
next
  assume "a \<le> b"
  then show "(10::rat) powi a \<le> 10 powi b"
    by (intro power_int_increasing) simp_all
qed

lemma p10_less_iff: "(10::rat) powi a < 10 powi b \<longleftrightarrow> a < b"
  using p10_le_iff [of b a] by (auto simp add: not_le [symmetric])

lemma in_decade_le:
  assumes "in_decade A x" "in_decade B y" "x \<le> y"
  shows "A \<le> B"
proof -
  from assms have "(10::rat) powi (A - 1) < 10 powi B"
    by (auto simp add: in_decade_def)
  then show ?thesis by (simp add: p10_less_iff)
qed

lemma in_decade_unique:
  assumes "in_decade A x" "in_decade B x"
  shows "A = B"
  using in_decade_le [OF assms order_refl] in_decade_le [OF assms(2,1) order_refl] by simp

lemma round_at_mono:
  assumes "x \<le> y"
  shows "round_at A x \<le> round_at A y"
proof -
  from assms have "x / 10 powi (A - 28) \<le> y / 10 powi (A - 28)"
    by (simp add: divide_right_mono)
  then have "rhe (x / 10 powi (A - 28)) \<le> rhe (y / 10 powi (A - 28))"
    by (rule rhe_mono)
  then show ?thesis
    by (simp add: round_at_def mult_right_mono)
qed

lemma round_at_multiple: "round_at A (of_int n * 10 powi (A - 28)) = of_int n * 10 powi (A - 28)"
  by (simp add: round_at_def)

lemma round_at_bounds:
  assumes "in_decade A x"
  shows "10 powi (A - 1) \<le> round_at A x" "round_at A x \<le> 10 powi A"
proof -
  have lo: "(10::rat) powi (A - 1) = of_int (10 ^ 27) * 10 powi (A - 28)"
    using p10_add [of 27 "A - 28"] by simp
  have hi: "(10::rat) powi A = of_int (10 ^ 28) * 10 powi (A - 28)"
    using p10_add [of 28 "A - 28"] by simp
  from assms have "round_at A (10 powi (A - 1)) \<le> round_at A x"
    by (intro round_at_mono) (simp add: in_decade_def)
  then show "10 powi (A - 1) \<le> round_at A x"
    unfolding lo round_at_multiple .
  from assms have "round_at A x \<le> round_at A (10 powi A)"
    by (intro round_at_mono) (simp add: in_decade_def)
  then show "round_at A x \<le> 10 powi A"
    unfolding hi round_at_multiple .
qed

lemma round_at_mono_decades:
  assumes "in_decade A x" "in_decade B y" "x \<le> y"
  shows "round_at A x \<le> round_at B y"
proof (cases "A = B")
  case True
  with assms(3) show ?thesis by (simp add: round_at_mono)
next
  case False
  with in_decade_le [OF assms] have "A \<le> B - 1" by simp
  then have "(10::rat) powi A \<le> 10 powi (B - 1)" by (simp add: p10_le_iff)
  with round_at_bounds(2) [OF assms(1)] round_at_bounds(1) [OF assms(2)]
  show ?thesis by linarith
qed

lemma in_decade_pos: "in_decade A x \<Longrightarrow> 0 < x"
  unfolding in_decade_def using p10_pos [of "A - 1"] by linarith

lemma round_at_pos: "in_decade A x \<Longrightarrow> 0 < round_at A x"
  using round_at_bounds(1) [of A x] p10_pos [of "A - 1"] by linarith

lemma rounds28_zero [simp]: "rounds28 0 y \<longleftrightarrow> y = 0"
  by (auto simp add: rounds28_def dest: in_decade_pos)

lemma rounds28_sgn:
  assumes "rounds28 x y"
  shows "sgn y = sgn x"
proof (cases "x = 0")
  case True
  with assms show ?thesis by simp
next
  case False
  with assms obtain A where A: "in_decade A \<bar>x\<bar>" and y: "y = sgn x * round_at A \<bar>x\<bar>"
    by (auto simp add: rounds28_def)
  from round_at_pos [OF A] show ?thesis
    by (simp add: y sgn_mult)
qed

lemma rounds28_minus: "rounds28 x y \<Longrightarrow> rounds28 (- x) (- y)"
  by (auto simp add: rounds28_def)

lemma rounds28_pos:
  assumes "rounds28 x y" "0 < x"
  obtains A where "in_decade A x" "y = round_at A x"
  using assms by (auto simp add: rounds28_def)

lemma rounds28_mono:
  assumes "rounds28 x y" "rounds28 x' y'" "x \<le> x'"
  shows "y \<le> y'"
proof -
  note s = rounds28_sgn [OF assms(1)] rounds28_sgn [OF assms(2)]
  consider "0 < x" | "x \<le> 0" "0 \<le> x'" | "x' < 0" using assms(3) by linarith
  then show ?thesis
  proof cases
    case 1
    with assms(3) have "0 < x'" by simp
    from rounds28_pos [OF assms(1) 1] rounds28_pos [OF assms(2) this] assms(3)
    show ?thesis by (metis round_at_mono_decades)
  next
    case 2
    with s have "sgn y \<le> 0" "0 \<le> sgn y'"
      by (simp_all add: sgn_if split: if_splits)
    then have "y \<le> 0" "0 \<le> y'" by (simp_all add: sgn_if split: if_splits)
    then show ?thesis by simp
  next
    case 3
    with assms(3) have "x < 0" by simp
    with 3 have p: "0 < - x'" "0 < - x" "- x' \<le> - x" using assms(3) by simp_all
    from rounds28_pos [OF rounds28_minus [OF assms(2)] p(1)]
      rounds28_pos [OF rounds28_minus [OF assms(1)] p(2)] p(3)
    have "- y' \<le> - y" by (metis round_at_mono_decades)
    then show ?thesis by simp
  qed
qed

lemma dec_val_Dec [simp]: "dec_val (Dec c e) = of_int c * 10 powi e"
  by (simp add: dec_val_def)

lemma dec_val_neg [simp]: "dec_val (dec_neg d) = - dec_val d"
  by (simp add: dec_val_def dec_neg_def)

lemma p10_nat: "(10::rat) powi (int n + e) = 10 ^ n * 10 powi e"
  by (simp add: p10_add)

lemma mag_in_decade:
  assumes "0 < c"
  shows "in_decade (int (ndigits c) + e) (of_int c * 10 powi e)"
proof -
  let ?n = "ndigits c"
  from ndigits_bounds [OF assms] have lo: "10 ^ (?n - 1) \<le> c" and hi: "c < 10 ^ ?n"
    by simp_all
  from ndigits_ge_1 [of c] have n: "int ?n + e - 1 = int (?n - 1) + e" by simp
  from lo have "(of_int (10 ^ (?n - 1)) :: rat) \<le> of_int c" by (simp only: of_int_le_iff)
  then have "(10::rat) ^ (?n - 1) * 10 powi e \<le> of_int c * 10 powi e"
    by (simp add: mult_right_mono)
  moreover from hi have "(of_int c :: rat) < of_int (10 ^ ?n)" by (simp only: of_int_less_iff)
  then have "of_int c * 10 powi e < (10::rat) ^ ?n * 10 powi e"
    by (simp add: mult_strict_right_mono)
  ultimately show ?thesis
    unfolding in_decade_def n p10_nat by simp
qed

lemma round_half_even_le:
  assumes "0 \<le> m" "m < 10 ^ (k + n)"
  shows "round_half_even m k \<le> 10 ^ n"
proof -
  have "m div 10 ^ k < 10 ^ n"
  proof (rule ccontr)
    assume "\<not> m div 10 ^ k < 10 ^ n"
    then have "10 ^ n * 10 ^ k \<le> m div 10 ^ k * (10::int) ^ k"
      by (intro mult_right_mono) simp_all
    also have "\<dots> \<le> m div 10 ^ k * 10 ^ k + m mod 10 ^ k"
      by simp
    also have "\<dots> = m" by (rule div_mult_mod_eq)
    finally show False using assms(2) by (simp add: power_add mult.commute)
  qed
  then show ?thesis
    by (simp add: round_half_even_def Let_def)
qed

lemma fix_zero [simp]: "dec_fix (Dec 0 e) = Dec 0 e"
  by (simp add: dec_fix_def prec_def ndigits.simps)

lemma fix_exact:
  assumes "\<bar>c\<bar> < 10 ^ 28"
  shows "dec_fix (Dec c e) = Dec c e"
proof -
  have "ndigits \<bar>c\<bar> \<le> 28"
    using assms by (subst ndigits_le_iff) simp_all
  then show ?thesis by (simp add: dec_fix_def prec_def)
qed

lemma fix_neg: "dec_fix (Dec (- c) e) = dec_neg (dec_fix (Dec c e))"
  by (simp add: dec_fix_def dec_neg_def Let_def)

lemma fix_pos:
  assumes "0 < c"
  shows "dec_val (dec_fix (Dec c e)) = round_at (int (ndigits c) + e) (of_int c * 10 powi e)"
proof (cases "ndigits c \<le> 28")
  case True
  let ?n = "ndigits c"
  have "int ?n + e - 28 + int (28 - ?n) = e" using True by simp
  then have "(10::rat) powi e = 10 ^ (28 - ?n) * 10 powi (int ?n + e - 28)"
    by (metis add.commute p10_nat)
  then have x: "of_int c * (10::rat) powi e = of_int (c * 10 ^ (28 - ?n)) * 10 powi (int ?n + e - 28)"
    by (simp only: of_int_mult of_int_power of_int_numeral mult.assoc)
  have "round_at (int ?n + e) (of_int c * 10 powi e) = of_int c * 10 powi e"
    by (simp only: x round_at_multiple)
  with True assms show ?thesis
    by (simp add: dec_fix_def prec_def)
next
  case False
  then have "ndigits c = (ndigits c - 28) + 28 \<and> 0 < ndigits c - 28" by simp
  then obtain k where n: "ndigits c = k + 28" and kp: "0 < k" by blast
  let ?q = "round_half_even c k"
  have "(of_int c * 10 powi e) / 10 powi (int k + e) = (of_int c :: rat) / 10 ^ k"
    by (simp add: p10_nat)
  moreover have "int (k + 28) + e - 28 = int k + e" by simp
  ultimately have r: "round_at (int (k + 28) + e) (of_int c * 10 powi e) =
      of_int ?q * 10 powi (int k + e)"
    by (simp only: round_at_def rhe_div)
  have f: "dec_fix (Dec c e) =
      (if ?q = 10 ^ 28 then Dec (10 ^ 27) (e + int k + 1) else Dec ?q (e + int k))"
    using assms kp by (simp add: dec_fix_def prec_def Let_def n)
  have t: "(10::rat) powi (e + int k + 1) = 10 * 10 powi (int k + e)"
    using p10_nat [of 1 "int k + e"] by (simp add: ac_simps)
  have u: "(10::rat) powi (e + int k) = 10 powi (int k + e)"
    by (simp add: add.commute)
  show ?thesis
  proof (cases "?q = 10 ^ 28")
    case True
    then show ?thesis
      unfolding n r f by (simp add: t)
  next
    case F: False
    then show ?thesis
      unfolding n r f by (simp add: u)
  qed
qed

lemma rounds28_posI: "in_decade A x \<Longrightarrow> y = round_at A x \<Longrightarrow> rounds28 x y"
  unfolding rounds28_def using in_decade_pos [of A x] by auto

lemma fix_rounds: "rounds28 (dec_val d) (dec_val (dec_fix d))"
proof -
  obtain c e where d: "d = Dec c e" by (cases d)
  consider "c = 0" | "0 < c" | "c < 0" by linarith
  then show ?thesis
  proof cases
    case 1
    then show ?thesis by (simp add: d)
  next
    case 2
    from mag_in_decade [OF 2, of e] fix_pos [OF 2, of e] show ?thesis
      unfolding d dec_val_Dec by (rule rounds28_posI)
  next
    case 3
    then have p: "0 < - c" by simp
    from mag_in_decade [OF p, of e] fix_pos [OF p, of e]
    have "rounds28 (dec_val (Dec (- c) e)) (dec_val (dec_fix (Dec (- c) e)))"
      unfolding dec_val_Dec by (rule rounds28_posI)
    from rounds28_minus [OF this] show ?thesis
      by (simp add: d fix_neg)
  qed
qed

lemma fix_fits: "\<bar>coeff (dec_fix d)\<bar> < 10 ^ 28"
proof (cases "ndigits \<bar>coeff d\<bar> \<le> 28")
  case True
  then have "\<bar>coeff d\<bar> < 10 ^ 28" by (subst (asm) ndigits_le_iff) simp_all
  with True show ?thesis by (simp add: dec_fix_def prec_def)
next
  case False
  let ?m = "\<bar>coeff d\<bar>"
  let ?k = "ndigits ?m - 28"
  from False have "0 < ?m" by (auto simp add: ndigits.simps split: if_splits)
  from ndigits_bounds [OF this] False have "?m < 10 ^ (?k + 28)" by simp
  then have le: "round_half_even ?m ?k \<le> 10 ^ 28"
    by (intro round_half_even_le) simp_all
  have ge: "0 \<le> round_half_even ?m ?k"
    by (simp add: round_half_even_def Let_def pos_imp_zdiv_nonneg_iff)
  from le ge False show ?thesis
    by (auto simp add: dec_fix_def prec_def Let_def abs_mult)
qed

lemma exact_sum_val:
  "dec_val (Dec (coeff a * 10 ^ nat (expo a - min (expo a) (expo b))
               + coeff b * 10 ^ nat (expo b - min (expo a) (expo b))) (min (expo a) (expo b)))
     = dec_val a + dec_val b"
proof -
  let ?e = "min (expo a) (expo b)"
  have a: "(10::rat) ^ nat (expo a - ?e) * 10 powi ?e = 10 powi expo a"
    using p10_nat [of "nat (expo a - ?e)" ?e] by simp
  have b: "(10::rat) ^ nat (expo b - ?e) * 10 powi ?e = 10 powi expo b"
    using p10_nat [of "nat (expo b - ?e)" ?e] by simp
  have "of_int (coeff a * 10 ^ nat (expo a - ?e) + coeff b * 10 ^ nat (expo b - ?e)) * (10::rat) powi ?e
      = of_int (coeff a) * (10 ^ nat (expo a - ?e) * 10 powi ?e)
        + of_int (coeff b) * (10 ^ nat (expo b - ?e) * 10 powi ?e)"
    by (simp add: algebra_simps)
  then show ?thesis
    by (simp only: dec_val_def decimal.sel a b)
qed

lemma add_rounds: "rounds28 (dec_val a + dec_val b) (dec_val (dec_add a b))"
  unfolding dec_add_def Let_def exact_sum_val [symmetric] by (rule fix_rounds)

lemma sub_rounds: "rounds28 (dec_val a - dec_val b) (dec_val (dec_sub a b))"
  using add_rounds [of a "dec_neg b"] by (simp add: dec_sub_def)

lemma mul_rounds: "rounds28 (dec_val a * dec_val b) (dec_val (dec_mul a b))"
proof -
  have "dec_val (Dec (coeff a * coeff b) (expo a + expo b)) = dec_val a * dec_val b"
    by (simp add: dec_val_def p10_add)
  then show ?thesis
    unfolding dec_mul_def by (metis fix_rounds)
qed

lemma abs_rounds: "rounds28 \<bar>dec_val a\<bar> (dec_val (dec_abs a))"
proof -
  have "dec_val (Dec \<bar>coeff a\<bar> (expo a)) = \<bar>dec_val a\<bar>"
    by (simp add: dec_val_def abs_mult)
  then show ?thesis
    unfolding dec_abs_def by (metis fix_rounds)
qed

lemma reduce_exact_val:
  "reduce_exact n c e = (c', e') \<Longrightarrow> of_int c' * 10 powi e' = (of_int c * 10 powi e :: rat)"
proof (induction n arbitrary: c e)
  case 0
  then show ?case by simp
next
  case (Suc n)
  show ?case
  proof (cases "c mod 10 = 0")
    case True
    with Suc.prems have "reduce_exact n (c div 10) (e + 1) = (c', e')" by simp
    from Suc.IH [OF this] have "of_int c' * 10 powi e' = (of_int (c div 10) * 10 powi (e + 1) :: rat)" .
    also have "\<dots> = of_int (c div 10 * 10) * 10 powi e"
      using p10_nat [of 1 e] by (simp add: ac_simps)
    also have "c div 10 * 10 = c" using True by (simp add: mod_eq_0_iff_dvd)
    finally show ?thesis .
  next
    case False
    with Suc.prems show ?thesis by simp
  qed
qed

lemma sticky_round:
  fixes q :: int and y :: rat
  assumes k: "0 < k" and y: "of_int q < y" "y < of_int q + 1"
  shows "rhe (y / 10 ^ k) = round_half_even (if q mod 5 = 0 then q + 1 else q) k"
proof -
  from k obtain k' where k': "k = Suc k'" by (cases k) simp_all
  define t :: int where "t = 10 ^ k'"
  have p: "(10::int) ^ k = 10 * t" and tp: "0 < t"
    by (simp_all add: t_def k')
  have pr: "(10::rat) ^ k = 10 * of_int t"
    by (simp add: t_def k')
  define Q where "Q = q div 10 ^ k"
  define R where "R = q mod 10 ^ k"
  have R: "0 \<le> R" "R < 10 * t"
    using tp by (simp_all add: R_def p)
  have qd: "q = 10 * t * Q + R"
    by (simp add: Q_def R_def p)
  have "q = R + 5 * (2 * t * Q)" by (simp add: qd)
  then have m5: "q mod 5 = R mod 5" by (metis mod_mult_self2)
  define \<theta> where "\<theta> = y - of_int q"
  have th: "0 < \<theta>" "\<theta> < 1" using y by (simp_all add: \<theta>_def)
  have yq: "y = of_int (10 * t * Q + R) + \<theta>"
    unfolding qd [symmetric] by (simp add: \<theta>_def)
  then have yv: "y = 10 * of_int t * of_int Q + of_int R + \<theta>" by simp
  have tr: "0 < (of_int t :: rat)" using tp by simp
  have fr: "y / 10 ^ k - of_int Q = (of_int R + \<theta>) / (10 * of_int t)"
    unfolding pr yv using tr by (simp add: field_simps)
  from R have "(of_int R :: rat) < of_int (10 * t)" "(of_int 0 :: rat) \<le> of_int R"
    by (simp_all only: of_int_less_iff of_int_le_iff)
  then have Rr: "(of_int R :: rat) < 10 * of_int t" "0 \<le> (of_int R :: rat)"
    by simp_all
  have fl: "\<lfloor>y / 10 ^ k\<rfloor> = Q"
  proof (rule floor_unique)
    have "0 \<le> (of_int R + \<theta>) / (10 * of_int t)"
      using Rr th tr by simp
    with fr show "of_int Q \<le> y / 10 ^ k" by linarith
    from R have "R + 1 \<le> 10 * t" by simp
    then have "of_int (R + 1) \<le> (of_int (10 * t) :: rat)"
      by (simp only: of_int_le_iff)
    then have "of_int R + \<theta> < 10 * (of_int t :: rat)" using th by simp
    then have "(of_int R + \<theta>) / (10 * of_int t) < 1"
      using tr by simp
    with fr show "y / 10 ^ k < of_int Q + 1" by linarith
  qed
  have lt: "(of_int R + \<theta>) / (10 * of_int t) < 1 / 2 \<longleftrightarrow> R < 5 * t"
  proof
    assume "(of_int R + \<theta>) / (10 * of_int t) < 1 / 2"
    then have "of_int R + \<theta> < 5 * (of_int t :: rat)" using tr by (simp add: field_simps)
    with th have "(of_int R :: rat) < of_int (5 * t)" by simp
    then show "R < 5 * t" by (simp only: of_int_less_iff)
  next
    assume "R < 5 * t"
    then have "R + 1 \<le> 5 * t" by simp
    then have "(of_int (R + 1) :: rat) \<le> of_int (5 * t)" by (simp only: of_int_le_iff)
    with th have "of_int R + \<theta> < 5 * (of_int t :: rat)" by simp
    then show "(of_int R + \<theta>) / (10 * of_int t) < 1 / 2" using tr by (simp add: field_simps)
  qed
  have gt: "(of_int R + \<theta>) / (10 * of_int t) > 1 / 2 \<longleftrightarrow> 5 * t \<le> R"
  proof
    assume "(of_int R + \<theta>) / (10 * of_int t) > 1 / 2"
    then have "of_int R + \<theta> > 5 * (of_int t :: rat)" using tr by (simp add: field_simps)
    with th have "(of_int (R + 1) :: rat) > of_int (5 * t)" by simp
    then have "R + 1 > 5 * t" by (simp only: of_int_less_iff)
    then show "5 * t \<le> R" by simp
  next
    assume "5 * t \<le> R"
    then have "(of_int (5 * t) :: rat) \<le> of_int R" by (simp only: of_int_le_iff)
    with th have "of_int R + \<theta> > 5 * (of_int t :: rat)" by simp
    then show "(of_int R + \<theta>) / (10 * of_int t) > 1 / 2" using tr by (simp add: field_simps)
  qed
  have lhs: "rhe (y / 10 ^ k) = (if R < 5 * t then Q else Q + 1)"
    unfolding rhe_def Let_def fl fr lt gt by auto
  show ?thesis
  proof (cases "q mod 5 = 0")
    case True
    with m5 R have r1: "R + 1 < 10 * t" by presburger
    have "q + 1 = 10 * t * Q + (R + 1)" by (simp add: qd)
    from int_div_pos_eq [OF this _ r1] int_mod_pos_eq [OF this _ r1] R
    have dm: "(q + 1) div (10 * t) = Q" "(q + 1) mod (10 * t) = R + 1" by simp_all
    have "2 * (R + 1) > 10 * t \<or> (2 * (R + 1) = 10 * t \<and> odd Q) \<longleftrightarrow> \<not> R < 5 * t"
      using True m5 by presburger
    with True show ?thesis
      unfolding lhs round_half_even_def Let_def p by (simp add: dm)
  next
    case False
    have dm: "q div (10 * t) = Q" "q mod (10 * t) = R"
      by (simp_all add: Q_def R_def p)
    have "2 * R > 10 * t \<or> (2 * R = 10 * t \<and> odd Q) \<longleftrightarrow> \<not> R < 5 * t"
      using False m5 by presburger
    with False show ?thesis
      unfolding lhs round_half_even_def Let_def p by (simp add: dm)
  qed
qed

lemma quotient_gt:
  fixes m1 m2 :: int
  assumes "0 < m1" "0 < m2"
  shows "10 ^ 28 < (of_int m1 / of_int m2 :: rat) *
     10 powi (int (ndigits m2) - int (ndigits m1) + 29)"
proof -
  let ?n1 = "int (ndigits m1)" and ?n2 = "int (ndigits m2)"
  from mag_in_decade [OF assms(1), of 0] have a: "(10::rat) powi (?n1 - 1) \<le> of_int m1"
    by (simp add: in_decade_def)
  from mag_in_decade [OF assms(2), of 0] have b: "(of_int m2 :: rat) < 10 powi ?n2"
    by (simp add: in_decade_def)
  have c: "0 < (of_int m2 :: rat)" using assms by simp
  have "(10::rat) powi (?n1 - 1) / 10 powi ?n2 < of_int m1 / of_int m2"
    using a b c by (intro frac_less2) simp_all
  then have "(10::rat) powi (?n1 - 1) / 10 powi ?n2 * 10 powi (?n2 - ?n1 + 29)
      < of_int m1 / of_int m2 * 10 powi (?n2 - ?n1 + 29)"
    by (intro mult_strict_right_mono) simp_all
  moreover have "(10::rat) powi (?n1 - 1) / 10 powi ?n2 * 10 powi (?n2 - ?n1 + 29) = 10 powi 28"
    unfolding p10_diff [symmetric] p10_add [symmetric] by simp
  ultimately show ?thesis by simp
qed

lemma scaled_quotient:
  fixes m1 m2 :: int
  assumes "0 < m2"
  shows "(of_int (if s \<ge> 0 then m1 * 10 ^ nat s else m1) :: rat)
           / of_int (if s \<ge> 0 then m2 else m2 * 10 ^ nat (- s))
         = of_int m1 / of_int m2 * 10 powi s"
  by (simp add: power_int_def field_simps)

lemma div_core:
  fixes m1 m2 :: int
  assumes m: "0 < m1" "0 < m2"
    and s: "s = int (ndigits m2) - int (ndigits m1) + 29"
    and num: "num = (if s \<ge> 0 then m1 * 10 ^ nat s else m1)"
    and den: "den = (if s \<ge> 0 then m2 else m2 * 10 ^ nat (- s))"
    and ce: "(c', e') =
       (if num mod den \<noteq> 0
        then (if num div den mod 5 = 0 then num div den + 1 else num div den, E)
        else reduce_exact (nat s) (num div den) E)"
  shows "rounds28 (of_int m1 / of_int m2 * 10 powi (E + s)) (dec_val (dec_fix (Dec c' e')))"
proof -
  define y :: rat where "y = of_int num / of_int den"
  define q where "q = num div den"
  have yv: "y = of_int m1 / of_int m2 * 10 powi s"
    unfolding y_def num den by (rule scaled_quotient [OF m(2)])
  have dp: "0 < den" using m by (simp add: den)
  have x: "of_int m1 / of_int m2 * 10 powi (E + s) = y * 10 powi E"
    by (simp add: yv p10_add)
  have big: "10 ^ 28 < y"
    unfolding yv s by (rule quotient_gt [OF m])
  have fl: "\<lfloor>y\<rfloor> = q"
    unfolding y_def q_def by (rule floor_divide_of_int_eq)
  show ?thesis
  proof (cases "num mod den = 0")
    case True
    then have "num = q * den" by (simp add: q_def mod_eq_0_iff_dvd)
    then have "y = of_int q" using dp by (simp add: y_def)
    moreover from True ce have "reduce_exact (nat s) q E = (c', e')" by (simp add: q_def)
    from reduce_exact_val [OF this] have "dec_val (Dec c' e') = of_int q * 10 powi E" by simp
    ultimately have "dec_val (Dec c' e') = y * 10 powi E" by simp
    with fix_rounds [of "Dec c' e'"] show ?thesis by (simp only: x)
  next
    case False
    with ce have e': "e' = E" and c': "c' = (if q mod 5 = 0 then q + 1 else q)"
      by (simp_all add: q_def)
    have "of_int q \<le> y" using fl by (metis of_int_floor_le)
    moreover have "y \<noteq> of_int q"
    proof
      assume "y = of_int q"
      then have "(of_int num :: rat) = of_int (q * den)" using dp by (simp add: y_def field_simps)
      then have "num = q * den" by (simp only: of_int_eq_iff)
      with False show False by simp
    qed
    ultimately have ylo: "of_int q < y" by simp
    have yhi: "y < of_int q + 1" using fl by (metis floor_eq_iff)
    from big have "(of_int (10 ^ 28) :: rat) \<le> y" by simp
    then have qbig: "10 ^ 28 \<le> q" unfolding fl [symmetric] by (simp only: le_floor_iff)
    then have cq: "q \<le> c'" and cpos: "0 < c'" by (simp_all add: c')
    let ?n = "ndigits c'"
    from ndigits_bounds [OF cpos] have nlo: "10 ^ (?n - 1) \<le> c'" and nhi: "c' < 10 ^ ?n"
      by simp_all
    have "\<not> ?n \<le> 28"
      using qbig cq cpos by (subst ndigits_le_iff) simp_all
    then obtain k where n: "?n = Suc k + 28" 
      by (metis Suc_diff_Suc add.commute le_add_diff_inverse nat_le_linear not_le add_Suc)
    have lo: "of_int (10 ^ (?n - 1)) \<le> y"
    proof (cases "q mod 5 = 0")
      case T: True
      have "?n - 1 = Suc (27 + k)" by (simp add: n)
      then have "(10::int) ^ (?n - 1) = 10 * 10 ^ (27 + k)" by (simp only: power_Suc)
      then have "(10::int) ^ (?n - 1) = 5 * (2 * 10 ^ (27 + k))" by simp
      then have "(10::int) ^ (?n - 1) mod 5 = 0" by (simp only: mod_mult_self1_is_0)
      with T have "10 ^ (?n - 1) \<noteq> q + 1" by presburger
      with nlo T have "10 ^ (?n - 1) \<le> q" by (simp add: c')
      then have "(of_int (10 ^ (?n - 1)) :: rat) \<le> of_int q" by (simp only: of_int_le_iff)
      with ylo show ?thesis by linarith
    next
      case F: False
      with nlo have "10 ^ (?n - 1) \<le> q" by (simp add: c')
      then have "(of_int (10 ^ (?n - 1)) :: rat) \<le> of_int q" by (simp only: of_int_le_iff)
      with ylo show ?thesis by linarith
    qed
    have hi: "y < of_int (10 ^ ?n)"
    proof -
      from nhi cq have "q + 1 \<le> 10 ^ ?n" by linarith
      then have "(of_int (q + 1) :: rat) \<le> of_int (10 ^ ?n)" by (simp only: of_int_le_iff)
      with yhi show ?thesis by simp
    qed
    have dec: "in_decade (int ?n + E) (y * 10 powi E)"
    proof -
      have "int ?n + E - 1 = int (?n - 1) + E" by (simp add: n)
      then have "(10::rat) powi (int ?n + E - 1) = 10 ^ (?n - 1) * 10 powi E"
        by (simp only: p10_nat)
      moreover have "(10::rat) ^ (?n - 1) * 10 powi E \<le> y * 10 powi E"
        using lo by (intro mult_right_mono) simp_all
      moreover have "y * 10 powi E < (10::rat) ^ ?n * 10 powi E"
        using hi by (intro mult_strict_right_mono) simp_all
      ultimately show ?thesis
        unfolding in_decade_def p10_nat by simp
    qed
    have g: "int ?n + E - 28 = int (Suc k) + E" by (simp add: n)
    have "rhe (y * 10 powi E / 10 powi (int (Suc k) + E)) = rhe (y / 10 ^ Suc k)"
      by (simp only: p10_nat) simp
    also have "\<dots> = round_half_even c' (Suc k)"
      unfolding c' by (rule sticky_round [OF _ ylo yhi]) simp
    also have "\<dots> = rhe (of_int c' / 10 ^ Suc k)" by (rule rhe_div)
    also have "\<dots> = rhe (of_int c' * 10 powi E / 10 powi (int (Suc k) + E))"
      by (simp only: p10_nat) simp
    finally have "round_at (int ?n + E) (y * 10 powi E) = round_at (int ?n + E) (of_int c' * 10 powi E)"
      by (simp only: round_at_def g)
    with fix_pos [OF cpos, of E] have "dec_val (dec_fix (Dec c' E)) = round_at (int ?n + E) (y * 10 powi E)"
      by simp
    from rounds28_posI [OF dec this] show ?thesis by (simp only: x e')
  qed
qed

lemma dec_val_quotient:
  assumes "cb \<noteq> 0"
  shows "dec_val (Dec ca ea) / dec_val (Dec cb eb)
     = of_int (sgn ca * sgn cb) * (of_int \<bar>ca\<bar> / of_int \<bar>cb\<bar> * 10 powi (ea - eb))"
proof -
  have "(of_int ca :: rat) = of_int (sgn ca) * of_int \<bar>ca\<bar>"
    by (simp add: sgn_if)
  moreover have "(of_int cb :: rat) = of_int (sgn cb) * of_int \<bar>cb\<bar>"
    by (simp add: sgn_if)
  moreover have "(of_int (sgn cb) :: rat) \<noteq> 0" "1 / (of_int (sgn cb) :: rat) = of_int (sgn cb)"
    using assms by (simp_all add: sgn_if)
  ultimately show ?thesis
    by (simp add: p10_diff field_simps sgn_if)
qed

lemma div_rounds:
  assumes "coeff b \<noteq> 0"
  shows "\<exists>d. dec_div a b = Inr d \<and> rounds28 (dec_val a / dec_val b) (dec_val d)"
proof (cases "coeff a = 0")
  case True
  with assms show ?thesis by (simp add: dec_div_def dec_val_def)
next
  case False
  obtain ca ea where a: "a = Dec ca ea" by (cases a)
  obtain cb eb where b: "b = Dec cb eb" by (cases b)
  from False assms have nz: "ca \<noteq> 0" "cb \<noteq> 0" by (simp_all add: a b)
  then have m: "0 < \<bar>ca\<bar>" "0 < \<bar>cb\<bar>" by simp_all
  define s where "s = int (ndigits \<bar>cb\<bar>) - int (ndigits \<bar>ca\<bar>) + int prec + 1"
  have s29: "s = int (ndigits \<bar>cb\<bar>) - int (ndigits \<bar>ca\<bar>) + 29"
    by (simp add: s_def prec_def)
  define num where "num = (if s \<ge> 0 then \<bar>ca\<bar> * 10 ^ nat s else \<bar>ca\<bar>)"
  define den where "den = (if s \<ge> 0 then \<bar>cb\<bar> else \<bar>cb\<bar> * 10 ^ nat (- s))"
  define E where "E = ea - eb - s"
  define T where "T =
       (if num mod den \<noteq> 0
        then (if num div den mod 5 = 0 then num div den + 1 else num div den, E)
        else reduce_exact (nat s) (num div den) E)"
  obtain c' e' where T: "T = (c', e')" by (cases T)
  then have ce: "(c', e') =
       (if num mod den \<noteq> 0
        then (if num div den mod 5 = 0 then num div den + 1 else num div den, E)
        else reduce_exact (nat s) (num div den) E)"
    by (simp only: T_def)
  have "dec_div a b = Inr (dec_fix (Dec (sgn ca * sgn cb * fst T) (snd T)))"
    unfolding dec_div_def Let_def a b decimal.sel T_def num_def den_def E_def s_def
    using nz by (simp only: if_False case_prod_beta)
  then have r: "dec_div a b = Inr (dec_fix (Dec (sgn ca * sgn cb * c') e'))"
    by (simp add: T)
  from div_core [OF m s29 num_def den_def ce]
  have c: "rounds28 (of_int \<bar>ca\<bar> / of_int \<bar>cb\<bar> * 10 powi (ea - eb)) (dec_val (dec_fix (Dec c' e')))"
    by (simp add: E_def)
  have x: "dec_val a / dec_val b
     = of_int (sgn ca * sgn cb) * (of_int \<bar>ca\<bar> / of_int \<bar>cb\<bar> * 10 powi (ea - eb))"
    unfolding a b by (rule dec_val_quotient [OF nz(2)])
  have "sgn ca * sgn cb = 1 \<or> sgn ca * sgn cb = - 1"
    using nz by (cases "0 < ca"; cases "0 < cb") (simp_all add: sgn_if)
  then consider "sgn ca * sgn cb = 1" | "sgn ca * sgn cb = - 1"
    by blast
  then show ?thesis
  proof cases
    case 1
    with c show ?thesis unfolding r x by simp
  next
    case 2
    with rounds28_minus [OF c] show ?thesis
      unfolding r x by (simp add: fix_neg)
  qed
qed

lemma div_total: "coeff b \<noteq> 0 \<Longrightarrow> \<exists>d. dec_div a b = Inr d"
  using div_rounds by blast

section \<open>The calculator: rounding of the results\<close>








section \<open>The calculator: validating weights\<close>

lemma scaled_val:
  "of_int (coeff a * 10 ^ nat (expo a - min (expo a) (expo b))) * 10 powi (min (expo a) (expo b))
     = dec_val a"
proof -
  let ?e = "min (expo a) (expo b)"
  have "(10::rat) ^ nat (expo a - ?e) * 10 powi ?e = 10 powi expo a"
    using p10_nat [of "nat (expo a - ?e)" ?e] by simp
  then show ?thesis by (simp add: dec_val_def mult.assoc)
qed

lemma dec_less_iff: "dec_less a b \<longleftrightarrow> dec_val a < dec_val b"
proof -
  let ?e = "min (expo a) (expo b)"
  let ?x = "coeff a * 10 ^ nat (expo a - ?e)" and ?y = "coeff b * 10 ^ nat (expo b - ?e)"
  have "dec_val a < dec_val b \<longleftrightarrow> of_int ?x * (10::rat) powi ?e < of_int ?y * 10 powi ?e"
    using scaled_val [of a b] scaled_val [of b a] by (simp only: min.commute)
  also have "\<dots> \<longleftrightarrow> (of_int ?x :: rat) < of_int ?y"
    by (simp only: mult_less_cancel_right_pos p10_pos)
  also have "\<dots> \<longleftrightarrow> ?x < ?y" by (simp only: of_int_less_iff)
  finally show ?thesis by (simp add: dec_less_def Let_def)
qed

lemma dec_eq_iff: "dec_eq a b \<longleftrightarrow> dec_val a = dec_val b"
proof -
  let ?e = "min (expo a) (expo b)"
  let ?x = "coeff a * 10 ^ nat (expo a - ?e)" and ?y = "coeff b * 10 ^ nat (expo b - ?e)"
  have "dec_val a = dec_val b \<longleftrightarrow> of_int ?x * (10::rat) powi ?e = of_int ?y * 10 powi ?e"
    using scaled_val [of a b] scaled_val [of b a] by (simp only: min.commute)
  also have "\<dots> \<longleftrightarrow> (of_int ?x :: rat) = of_int ?y"
    by simp
  also have "\<dots> \<longleftrightarrow> ?x = ?y" by (simp only: of_int_eq_iff)
  finally show ?thesis by (simp add: dec_eq_def Let_def)
qed

lemma rounds28_functional:
  assumes "rounds28 x y" "rounds28 x y'"
  shows "y = y'"
  using rounds28_mono [OF assms order_refl] rounds28_mono [OF assms(2,1) order_refl] by simp

lemma rounds28_exact:
  assumes "rounds28 x y" "x = of_int c * 10 powi e" "\<bar>c\<bar> < 10 ^ 28"
  shows "y = x"
proof -
  from fix_rounds [of "Dec c e"] fix_exact [OF assms(3), of e] assms(2)
  have "rounds28 x x" by simp
  with assms(1) show ?thesis by (rule rounds28_functional)
qed

lemma rounds28_of_int:
  assumes "rounds28 x y" "x = of_int c" "\<bar>c\<bar> < 10 ^ 28"
  shows "y = x"
  using rounds28_exact [OF assms(1) _ assms(3), of 0] assms(2) by simp

lemma abs_val_fits:
  assumes "\<bar>coeff d\<bar> < 10 ^ 28"
  shows "dec_val (dec_abs d) = \<bar>dec_val d\<bar>"
  using fix_exact [of "\<bar>coeff d\<bar>" "expo d"] assms
  by (simp add: dec_abs_def dec_val_def abs_mult)

lemma near_100_exact:
  assumes fits: "\<bar>c\<bar> < 10 ^ 28"
    and near: "\<bar>of_int c * 10 powi e - (100::rat)\<bar> < 1"
    and r: "rounds28 (of_int c * 10 powi e - 100) y"
  shows "y = of_int c * 10 powi e - 100"
proof (cases "0 < e")
  case True
  then have "(10::rat) powi e = of_int (10 ^ nat e)"
    by (simp add: power_int_nonneg_exp)
  then have v: "of_int c * 10 powi e - (100::rat) = of_int (c * 10 ^ nat e - 100)"
    by simp
  with near have "\<bar>of_int (c * 10 ^ nat e - 100) :: rat\<bar> < of_int 1" by simp
  then have "\<bar>c * 10 ^ nat e - 100\<bar> < 1"
    by (simp only: of_int_abs [symmetric] of_int_less_iff)
  then have "\<bar>c * 10 ^ nat e - 100\<bar> < 10 ^ 28" by simp
  from rounds28_of_int [OF r v this] show ?thesis .
next
  case False
  define k where "k = nat (- e)"
  have e: "e = - int k" using False by (simp add: k_def)
  have pe: "(10::rat) powi e * 10 ^ k = 1"
    by (simp add: e power_int_minus)
  define c' where "c' = c - 100 * 10 ^ k"
  have "(of_int c' :: rat) * 10 powi e = of_int c * 10 powi e - 100 * (10 ^ k * 10 powi e)"
    by (simp add: c'_def algebra_simps)
  then have v: "of_int c * 10 powi e - (100::rat) = of_int c' * 10 powi e"
    using pe by (simp add: mult.commute)
  have "\<bar>of_int c' :: rat\<bar> = \<bar>of_int c' * 10 powi e\<bar> * 10 ^ k"
    using pe by (simp add: abs_mult mult.assoc)
  also have "\<dots> < 1 * 10 ^ k"
    using near unfolding v by (intro mult_strict_right_mono) simp_all
  finally have "\<bar>of_int c' :: rat\<bar> < of_int (10 ^ k)" by simp
  then have ck: "\<bar>c'\<bar> < 10 ^ k"
    by (simp only: of_int_abs [symmetric] of_int_less_iff)
  have "k \<le> 28"
  proof (rule ccontr)
    assume "\<not> k \<le> 28"
    then have "29 \<le> k" by simp
    then have "(10::rat) ^ 29 \<le> 10 ^ k" by (intro power_increasing) simp_all
    then have "(10::rat) ^ 29 * 10 powi e \<le> 10 ^ k * 10 powi e"
      by (intro mult_right_mono) simp_all
    then have le: "(10::rat) ^ 29 * 10 powi e \<le> 1" using pe by (simp add: mult.commute)
    from fits have "\<bar>of_int c :: rat\<bar> < of_int (10 ^ 28)"
      by (simp only: of_int_abs [symmetric] of_int_less_iff)
    then have lt: "\<bar>of_int c :: rat\<bar> * 10 powi e < 10 ^ 28 * 10 powi e"
      by (intro mult_strict_right_mono) simp_all
    define P where "P = (10::rat) powi e"
    define X where "X = \<bar>of_int c :: rat\<bar> * P"
    from le lt have "10 ^ 29 * P \<le> 1" "X < 10 ^ 28 * P"
      by (simp_all only: P_def X_def)
    then have "X < 1 / 10" by simp
    then have "\<bar>of_int c * 10 powi e :: rat\<bar> < 1 / 10"
      by (simp add: X_def P_def abs_mult)
    with near show False by linarith
  qed
  then have "(10::int) ^ k \<le> 10 ^ 28" by (intro power_increasing) simp_all
  with ck have "\<bar>c'\<bar> < 10 ^ 28" by linarith
  from rounds28_exact [OF r v this] show ?thesis .
qed

lemma rounds28_const:
  "rounds28 (1 / 100) (1 / 100)" "rounds28 (- (1 / 100)) (- (1 / 100))"
  "rounds28 1 1" "rounds28 (- 1) (- 1)"
proof -
  from fix_rounds [of "Dec 1 (- 2)"] fix_exact [of 1 "- 2"]
  show a: "rounds28 (1 / 100) (1 / 100)" by (simp add: power_int_minus)
  from rounds28_minus [OF a] show "rounds28 (- (1 / 100)) (- (1 / 100))" .
  from fix_rounds [of "Dec 1 0"] fix_exact [of 1 0] show b: "rounds28 1 1" by simp
  from rounds28_minus [OF b] show "rounds28 (- 1) (- 1)" .
qed

lemma deviation_test:
  assumes fits: "\<bar>coeff t\<bar> < 10 ^ 28"
  shows "dec_less (Dec 1 (- 2)) (dec_abs (dec_sub t (Dec 100 0)))
     \<longleftrightarrow> 1 / 100 < \<bar>dec_val t - 100\<bar>"
proof -
  define D where "D = dec_val t - 100"
  define y where "y = dec_val (dec_sub t (Dec 100 0))"
  have r: "rounds28 D y"
    using sub_rounds [of t "Dec 100 0"] by (simp add: D_def y_def)
  have "\<bar>coeff (dec_sub t (Dec 100 0))\<bar> < 10 ^ 28"
    unfolding dec_sub_def dec_add_def Let_def by (rule fix_fits)
  from abs_val_fits [OF this] have a: "dec_val (dec_abs (dec_sub t (Dec 100 0))) = \<bar>y\<bar>"
    by (simp add: y_def)
  have l: "dec_less (Dec 1 (- 2)) (dec_abs (dec_sub t (Dec 100 0))) \<longleftrightarrow> 1 / 100 < \<bar>y\<bar>"
    unfolding dec_less_iff a by (simp add: power_int_minus)
  have "1 / 100 < \<bar>y\<bar> \<longleftrightarrow> 1 / 100 < \<bar>D\<bar>"
  proof
    assume y: "1 / 100 < \<bar>y\<bar>"
    show "1 / 100 < \<bar>D\<bar>"
    proof (rule ccontr)
      assume "\<not> 1 / 100 < \<bar>D\<bar>"
      then have "- (1 / 100) \<le> D" "D \<le> 1 / 100" by simp_all
      from rounds28_mono [OF rounds28_const(2) r this(1)] rounds28_mono [OF r rounds28_const(1) this(2)]
      have "\<bar>y\<bar> \<le> 1 / 100" by simp
      with y show False by simp
    qed
  next
    assume d: "1 / 100 < \<bar>D\<bar>"
    show "1 / 100 < \<bar>y\<bar>"
    proof (cases "\<bar>D\<bar> < 1")
      case True
      obtain c e where t: "t = Dec c e" by (cases t)
      from near_100_exact [of c e y] fits True r have "y = D"
        by (simp add: t D_def)
      with d show ?thesis by simp
    next
      case False
      then consider "1 \<le> D" | "D \<le> - 1" by linarith
      then show ?thesis
      proof cases
        case 1
        from rounds28_mono [OF rounds28_const(3) r 1] show ?thesis by simp
      next
        case 2
        from rounds28_mono [OF r rounds28_const(4) 2] show ?thesis by simp
      qed
    qed
  qed
  with l show ?thesis by (simp add: D_def)
qed

lemma check_weights_ok:
  "check_weights i cs = (True, []) \<longleftrightarrow>
     (\<forall>c\<in>set cs. 0 \<le> dec_val (get_weight c) \<and> dec_val (get_weight c) \<le> 100)"
  by (induction cs arbitrary: i) (auto simp add: Let_def dec_less_iff)

lemma py_sum_fits: "ds \<noteq> [] \<Longrightarrow> \<bar>coeff (py_sum ds)\<bar> < 10 ^ 28"
proof (cases ds rule: rev_cases)
  case Nil
  assume "ds \<noteq> []"
  with Nil show ?thesis by simp
next
  case (snoc xs x)
  show ?thesis
    unfolding snoc py_sum_def foldl_append foldl.simps dec_add_def Let_def by (rule fix_fits)
qed

text \<open>
  C3, as the code has it. \<^verbatim>\<open>validate_weights\<close> returns \<^verbatim>\<open>(True, "")\<close> if and only
  if the criteria list is not empty, every weight lies in \<open>[0, 100]\<close>, and the sum that
  \<^verbatim>\<open>sum(...)\<close> accumulates from the left in 28-digit Decimal arithmetic (\<open>py_sum\<close>)
  deviates from 100 by at most 0.01; the comparisons are exact, on the values of the
  Decimals. And for a non-empty list whose accumulated sum deviates from 100 by more
  than 0.01, it returns \<^verbatim>\<open>False\<close> with the message that embeds that accumulated sum.
\<close>

theorem validate_weights_iff:
  "(validate_weights criteria = (True, []) \<longleftrightarrow>
      criteria \<noteq> []
      \<and> (\<forall>c\<in>set criteria. 0 \<le> dec_val (get_weight c) \<and> dec_val (get_weight c) \<le> 100)
      \<and> \<bar>dec_val (py_sum (map get_weight criteria)) - 100\<bar> \<le> 1 / 100)
   \<and> (criteria \<noteq> [] \<and> 1 / 100 < \<bar>dec_val (py_sum (map get_weight criteria)) - 100\<bar> \<longrightarrow>
        validate_weights criteria =
          (False, [Txt ''Weights must sum to 100%. Current sum: '',
                   DecPiece (py_sum (map get_weight criteria)), Txt ''%'']))"
proof (cases "criteria = []")
  case True
  then show ?thesis by (simp add: validate_weights_def)
next
  case False
  then have "map get_weight criteria \<noteq> []" by simp
  from deviation_test [OF py_sum_fits [OF this]] False show ?thesis
    by (auto simp add: validate_weights_def Let_def check_weights_ok)
qed

lemma tiny_excess_sum:
  "py_sum [Dec 50005 (- 3), Dec 50005 (- 3), Dec 1 (- 28)] =
     Dec 1000100000000000000000000000 (- 25)"
  by (simp add: dec_eval)

lemma tiny_excess_deviation:
  "dec_abs (dec_sub (Dec 1000100000000000000000000000 (- 25)) (Dec 100 0)) =
     Dec 100000000000000000000000 (- 25)"
  by (simp add: dec_eval)

lemma tiny_excess_passes:
  "dec_less (Dec 1 (- 2)) (Dec 100000000000000000000000 (- 25)) = False"
  by (simp add: dec_eval)

text \<open>
  C3 as stated fails in two places. The weights of \<open>tiny_excess\<close> sum to
  \<open>100.01 + 1E-28\<close>, more than 0.01 away from 100, but the third addition rounds the
  accumulated sum to 28 digits, 100.0100000000000000000000000, and the list is accepted.
  And the sum of the empty list, 0, is more than 0.01 away from 100, but the message for
  the empty list names no sum.
\<close>

theorem validate_weights_counterexample:
  "validate_weights tiny_excess = (True, [])
   \<and> 1 / 100 < \<bar>(\<Sum>c\<leftarrow>tiny_excess. dec_val (get_weight c)) - 100\<bar>
   \<and> validate_weights [] = (False, [Txt ''No criteria provided''])
   \<and> 1 / 100 < \<bar>(\<Sum>c\<leftarrow>[]. dec_val (get_weight c)) - 100\<bar>"
proof -
  have c: "check_weights 0 tiny_excess = (True, [])"
    by (simp add: tiny_excess_def get_weight_def dec_less_def)
  have m: "map get_weight tiny_excess = [Dec 50005 (- 3), Dec 50005 (- 3), Dec 1 (- 28)]"
    by (simp add: tiny_excess_def get_weight_def)
  have ne: "tiny_excess \<noteq> []" by (simp add: tiny_excess_def)
  have v: "validate_weights tiny_excess = (True, [])"
    by (simp add: validate_weights_def ne m c tiny_excess_sum tiny_excess_deviation
        tiny_excess_passes Let_def)
  have s: "(\<Sum>c\<leftarrow>tiny_excess. dec_val (get_weight c)) - 100 = 1 / 100 + 1 / 10 ^ 28"
    by (simp add: tiny_excess_def get_weight_def power_int_minus)
  have e: "validate_weights [] = (False, [Txt ''No criteria provided''])"
    by (simp add: validate_weights_def)
  show ?thesis
    unfolding s by (simp add: v e)
qed

text \<open>The theorem at the weights 40, 35, 25: accepted.\<close>

theorem validate_weights_iff_witness:
  "weights_40_35_25 \<noteq> []
   \<and> list_all (\<lambda>c. 0 \<le> dec_val (get_weight c) \<and> dec_val (get_weight c) \<le> 100) weights_40_35_25
   \<and> py_sum (map get_weight weights_40_35_25) = Dec 100 0
   \<and> validate_weights weights_40_35_25 = (True, [])"
proof -
  have n: "weights_40_35_25 \<noteq> []" by (simp add: weights_40_35_25_def)
  have r: "\<forall>c\<in>set weights_40_35_25. 0 \<le> dec_val (get_weight c) \<and> dec_val (get_weight c) \<le> 100"
    by (simp add: weights_40_35_25_def get_weight_def)
  have s: "py_sum (map get_weight weights_40_35_25) = Dec 100 0"
    by (simp add: weights_40_35_25_def get_weight_def dec_eval)
  then have d: "\<bar>dec_val (py_sum (map get_weight weights_40_35_25)) - 100\<bar> \<le> 1 / 100"
    by simp
  from validate_weights_iff [of weights_40_35_25] n r d
  have "validate_weights weights_40_35_25 = (True, [])" by blast
  with n r s show ?thesis by (simp add: list_all_iff)
qed

end
